theory Spec2Isabelle
  imports Complex_Main
begin

section \<open>Data model\<close>

text \<open>
  The caches of \<^verbatim>\<open>lru_cache.py\<close> and \<^verbatim>\<open>batch_refresh_cache.py\<close>.

  A \<^verbatim>\<open>datetime\<close> is modelled by its number of microseconds since the epoch and a
  \<^verbatim>\<open>timedelta\<close> by its number of microseconds, both of type \<open>int\<close>, which is how
  Python holds them. A Python \<^verbatim>\<open>float\<close> is modelled by the real number it denotes, and
  every float operation of the source rounds its exact result to the nearest double
  (section ``Double-precision arithmetic'').

  The \<^verbatim>\<open>request_time\<close> argument is always passed: the default \<^verbatim>\<open>None\<close> of the source
  only reads the clock and continues with that value. The messages that the
  constructors print are left out.
\<close>

datatype error = KeyError

section \<open>Double-precision arithmetic\<close>

text \<open>
  Python's \<^verbatim>\<open>float\<close> is the IEEE 754 binary64 format: 53 significant bits, the
  smallest positive number \<open>2 powi (- 1074)\<close>, results rounded to the nearest
  representable number and to the even significand on a tie. Infinities and NaN are not
  modelled: a result beyond the largest double is taken as the rounded real. Of the
  operations below only the product \<^verbatim>\<open>ttl.total_seconds() * half_ttl\<close> can be that
  large, for a \<^verbatim>\<open>half_ttl\<close> above \<open>10 ^ 290\<close>.
\<close>

text \<open>The number of binary digits of a natural number.\<close>

fun bit_length :: "nat \<Rightarrow> nat" where
  "bit_length n = (if n = 0 then 0 else Suc (bit_length (n div 2)))"

declare bit_length.simps [simp del]

text \<open>
  The binary exponent \<open>k\<close> of a positive real \<open>y\<close>, with
  \<open>2 powi k \<le> y\<close> and \<open>y < 2 powi (k + 1)\<close>.
\<close>

definition floor_log2 :: "real \<Rightarrow> int" where
  "floor_log2 y =
     (if 1 \<le> y then int (bit_length (nat \<lfloor>y\<rfloor>)) - 1
      else - int (bit_length (nat (\<lceil>1 / y\<rceil> - 1))))"

text \<open>Rounding to the nearest integer, to the even one on a tie.\<close>

definition round_half_even :: "real \<Rightarrow> int" where
  "round_half_even z =
     (let f = \<lfloor>z\<rfloor>; r = z - of_int f
      in if r < 1 / 2 then f
         else if 1 / 2 < r then f + 1
         else if even f then f else f + 1)"

text \<open>
  Rounding a real to the nearest double: the significand is the real divided by the
  value \<open>2 powi e\<close> of its last bit, where \<open>e\<close> is \<open>k - 52\<close> and at least \<open>- 1074\<close>.
\<close>

definition round_double :: "real \<Rightarrow> real" where
  "round_double x =
     (if x = 0 then 0
      else let e = max (floor_log2 \<bar>x\<bar> - 52) (- 1074)
           in of_int (round_half_even (x / 2 powi e)) * 2 powi e)"

text \<open>
  \<^verbatim>\<open>a / b\<close> on two \<^verbatim>\<open>int\<close>s: the correctly rounded quotient. The source divides by
  the constant \<^verbatim>\<open>10**6\<close> and by a total it has tested to be positive.
\<close>

definition true_div :: "int \<Rightarrow> int \<Rightarrow> real" where
  "true_div a b = round_double (real_of_int a / real_of_int b)"

text \<open>\<^verbatim>\<open>x * y\<close> on two \<^verbatim>\<open>float\<close>s.\<close>

definition float_mul :: "real \<Rightarrow> real \<Rightarrow> real" where
  "float_mul x y = round_double (x * y)"

section \<open>Ordered dictionary and state\<close>

text \<open>
  \<^verbatim>\<open>collections.OrderedDict\<close>: an association list in insertion order, the oldest
  entry first. Every value the caches store is a pair \<^verbatim>\<open>(0, timestamp)\<close>.
\<close>

type_synonym 'k odict = "('k \<times> (int \<times> int)) list"

text \<open>\<^verbatim>\<open>key in d\<close>\<close>

definition contains :: "'k odict \<Rightarrow> 'k \<Rightarrow> bool" where
  "contains d k = (map_of d k \<noteq> None)"

text \<open>\<^verbatim>\<open>del d[key]\<close>, the removal that \<^verbatim>\<open>move_to_end\<close> performs before it appends.\<close>

fun remove_key :: "'k \<Rightarrow> 'k odict \<Rightarrow> 'k odict" where
  "remove_key k [] = []"
| "remove_key k (e # es) = (if fst e = k then remove_key k es else e # remove_key k es)"

text \<open>\<^verbatim>\<open>d.move_to_end(key)\<close>: raises \<^verbatim>\<open>KeyError\<close> when the key is absent.\<close>

definition move_to_end :: "'k \<Rightarrow> 'k odict \<Rightarrow> error + 'k odict" where
  "move_to_end k d =
     (case map_of d k of
        None \<Rightarrow> Inl KeyError
      | Some v \<Rightarrow> Inr (remove_key k d @ [(k, v)]))"

text \<open>\<^verbatim>\<open>d[key] = v\<close>: a present key keeps its position, an absent one is appended.\<close>

fun setitem :: "'k \<Rightarrow> int \<times> int \<Rightarrow> 'k odict \<Rightarrow> 'k odict" where
  "setitem k v [] = [(k, v)]"
| "setitem k v (e # es) = (if fst e = k then (k, v) # es else e # setitem k v es)"

text \<open>\<^verbatim>\<open>d.popitem(last=False)\<close>: raises \<^verbatim>\<open>KeyError\<close> on an empty dictionary.\<close>

definition popitem_first :: "'k odict \<Rightarrow> error + (('k \<times> (int \<times> int)) \<times> 'k odict)" where
  "popitem_first d = (case d of [] \<Rightarrow> Inl KeyError | e # es \<Rightarrow> Inr (e, es))"

text \<open>
  \<^verbatim>\<open>timedelta.total_seconds()\<close>: the number of microseconds divided by \<^verbatim>\<open>10**6\<close>.
\<close>

definition total_seconds :: "int \<Rightarrow> real" where
  "total_seconds td = true_div td 1000000"

record 'k LRUCache =
  max_size :: int
  ttl :: int
  ttl_seconds :: real
  cache :: "'k odict"
  hits :: int
  misses :: int
  bulk_misses :: int
  evictions :: int
  expirations :: int

record 'k BatchRefreshCache = "'k LRUCache" +
  half_ttl :: real
  max_request_size :: int
  half_ttl_seconds :: real
  refresh_batch :: "'k list"
  batch_updates :: int

section \<open>\<^verbatim>\<open>LRUCache\<close>\<close>

text \<open>\<^verbatim>\<open>LRUCache.__init__\<close>: stores its arguments; nothing is checked and nothing raises.\<close>

definition LRUCache_init :: "int \<Rightarrow> int \<Rightarrow> error + 'k LRUCache" where
  "LRUCache_init max_size0 ttl0 =
     Inr \<lparr> max_size = max_size0, ttl = ttl0, ttl_seconds = total_seconds ttl0,
           cache = [], hits = 0, misses = 0, bulk_misses = 0, evictions = 0,
           expirations = 0 \<rparr>"

text \<open>\<^verbatim>\<open>LRUCache._is_expired_at_time\<close>\<close>

definition is_expired_at_time :: "('k, 'm) LRUCache_scheme \<Rightarrow> int \<Rightarrow> int \<Rightarrow> bool" where
  "is_expired_at_time s cache_timestamp request_time =
     (total_seconds (request_time - cache_timestamp) > ttl_seconds s)"

text \<open>\<^verbatim>\<open>LRUCache._add_keys_to_cache\<close>\<close>

fun add_keys_to_cache ::
  "'k list \<Rightarrow> int \<Rightarrow> ('k, 'm) LRUCache_scheme \<Rightarrow> error + ('k, 'm) LRUCache_scheme" where
  "add_keys_to_cache [] timestamp s = Inr s"
| "add_keys_to_cache (key # keys) timestamp s =
     (if int (length (cache s)) \<ge> max_size s then
        (case popitem_first (cache s) of
           Inl e \<Rightarrow> Inl e
         | Inr (_, d) \<Rightarrow>
             add_keys_to_cache keys timestamp
               (s\<lparr>cache := setitem key (0, timestamp) d, evictions := evictions s + 1\<rparr>))
      else
        add_keys_to_cache keys timestamp (s\<lparr>cache := setitem key (0, timestamp) (cache s)\<rparr>))"

text \<open>
  The first loop of \<^verbatim>\<open>LRUCache.get\<close>: it classifies every key, appends a flag to
  \<^verbatim>\<open>results\<close>, collects \<^verbatim>\<open>missing_keys\<close> and \<^verbatim>\<open>expired_keys\<close>, and promotes and counts
  the hits as it goes.
\<close>

fun classify_keys ::
  "'k list \<Rightarrow> int \<Rightarrow> int list \<times> 'k list \<times> 'k list \<times> ('k, 'm) LRUCache_scheme \<Rightarrow>
   error + (int list \<times> 'k list \<times> 'k list \<times> ('k, 'm) LRUCache_scheme)" where
  "classify_keys [] request_time acc = Inr acc"
| "classify_keys (key # keys) request_time (results, missing_keys, expired_keys, s) =
     (case map_of (cache s) key of
        Some (_, timestamp) \<Rightarrow>
          if is_expired_at_time s timestamp request_time then
            classify_keys keys request_time
              (results @ [0], missing_keys, expired_keys @ [key], s)
          else
            (case move_to_end key (cache s) of
               Inl e \<Rightarrow> Inl e
             | Inr d \<Rightarrow>
                 classify_keys keys request_time
                   (results @ [0], missing_keys, expired_keys,
                    s\<lparr>cache := d, hits := hits s + 1\<rparr>))
      | None \<Rightarrow>
          classify_keys keys request_time
            (results @ [0], missing_keys @ [key], expired_keys, s))"

text \<open>The loop over \<^verbatim>\<open>expired_keys\<close> in \<^verbatim>\<open>LRUCache.get\<close>.\<close>

fun reinsert_expired ::
  "'k list \<Rightarrow> int \<Rightarrow> ('k, 'm) LRUCache_scheme \<Rightarrow> error + ('k, 'm) LRUCache_scheme" where
  "reinsert_expired [] request_time s = Inr s"
| "reinsert_expired (key # keys) request_time s =
     (case move_to_end key (setitem key (0, request_time) (cache s)) of
        Inl e \<Rightarrow> Inl e
      | Inr d \<Rightarrow>
          reinsert_expired keys request_time
            (s\<lparr>cache := d, expirations := expirations s + 1\<rparr>))"

text \<open>\<^verbatim>\<open>LRUCache.get\<close>: the new state is returned beside the result list.\<close>

definition get ::
  "'k list \<Rightarrow> int \<Rightarrow> ('k, 'm) LRUCache_scheme \<Rightarrow>
   error + (int list \<times> ('k, 'm) LRUCache_scheme)" where
  "get keys request_time s =
     (if keys = [] then Inr ([], s)
      else
        case classify_keys keys request_time ([], [], [], s) of
          Inl e \<Rightarrow> Inl e
        | Inr (results, missing_keys, expired_keys, s1) \<Rightarrow>
            let all_missing_keys = missing_keys @ expired_keys in
            if all_missing_keys \<noteq> [] then
              (case reinsert_expired expired_keys request_time s1 of
                 Inl e \<Rightarrow> Inl e
               | Inr s2 \<Rightarrow>
                   (case (if missing_keys \<noteq> []
                          then add_keys_to_cache missing_keys request_time s2
                          else Inr s2) of
                      Inl e \<Rightarrow> Inl e
                    | Inr s3 \<Rightarrow>
                        Inr (results,
                             s3\<lparr>misses := misses s3 + int (length all_missing_keys),
                                bulk_misses := bulk_misses s3 + 1\<rparr>)))
            else Inr (results, s1))"

text \<open>\<^verbatim>\<open>LRUCache.get_single\<close>: \<^verbatim>\<open>[0]\<close> of a one-element list never fails.\<close>

definition get_single ::
  "'k \<Rightarrow> int \<Rightarrow> ('k, 'm) LRUCache_scheme \<Rightarrow> error + (int \<times> ('k, 'm) LRUCache_scheme)" where
  "get_single key request_time s =
     (case get [key] request_time s of
        Inl e \<Rightarrow> Inl e
      | Inr (results, s') \<Rightarrow> Inr (hd results, s'))"

text \<open>\<^verbatim>\<open>LRUCache.size\<close>\<close>

definition cache_size :: "('k, 'm) LRUCache_scheme \<Rightarrow> int" where
  "cache_size s = int (length (cache s))"

text \<open>
  \<^verbatim>\<open>LRUCache.get_stats\<close>: the returned dictionary as a record. The hit rate is
  \<^verbatim>\<open>self.hits / total_requests * 100\<close>: a true division of two \<^verbatim>\<open>int\<close>s, then a float
  product with \<^verbatim>\<open>100\<close>.
\<close>

record stats =
  stats_hits :: int
  stats_misses :: int
  stats_bulk_misses :: int
  total_requests :: int
  hit_rate_percent :: real
  stats_evictions :: int
  stats_expirations :: int
  current_size :: int
  stats_max_size :: int
  stats_ttl :: int

definition get_stats :: "('k, 'm) LRUCache_scheme \<Rightarrow> stats" where
  "get_stats s =
     (let total = hits s + misses s;
          hit_rate = (if total > 0 then float_mul (true_div (hits s) total) 100 else 0)
      in \<lparr> stats_hits = hits s, stats_misses = misses s, stats_bulk_misses = bulk_misses s,
            total_requests = total, hit_rate_percent = hit_rate,
            stats_evictions = evictions s, stats_expirations = expirations s,
            current_size = int (length (cache s)), stats_max_size = max_size s,
            stats_ttl = ttl s \<rparr>)"

section \<open>\<^verbatim>\<open>BatchRefreshCache\<close>\<close>

text \<open>\<^verbatim>\<open>BatchRefreshCache.__init__\<close>: the base constructor, then the fields of the layer.\<close>

definition BatchRefreshCache_init ::
  "int \<Rightarrow> int \<Rightarrow> real \<Rightarrow> int \<Rightarrow> error + 'k BatchRefreshCache" where
  "BatchRefreshCache_init max_size0 ttl0 half_ttl0 max_request_size0 =
     (case (LRUCache_init max_size0 ttl0 :: error + 'k LRUCache) of
        Inl e \<Rightarrow> Inl e
      | Inr b \<Rightarrow>
          Inr (LRUCache.extend b
                 \<lparr> half_ttl = half_ttl0, max_request_size = max_request_size0,
                   half_ttl_seconds = float_mul (total_seconds ttl0) half_ttl0,
                   refresh_batch = [], batch_updates = 0 \<rparr>))"

text \<open>\<^verbatim>\<open>BatchRefreshCache._is_near_expiration\<close>\<close>

definition is_near_expiration ::
  "('k, 'm) BatchRefreshCache_scheme \<Rightarrow> int \<Rightarrow> int \<Rightarrow> bool" where
  "is_near_expiration s cache_timestamp request_time =
     (let age = total_seconds (request_time - cache_timestamp)
      in age > half_ttl_seconds s)"

text \<open>The loop over \<^verbatim>\<open>self.refresh_batch\<close> in \<^verbatim>\<open>_process_refresh_batch\<close>.\<close>

fun refresh_keys ::
  "'k list \<Rightarrow> int \<Rightarrow> 'k odict \<Rightarrow> error + 'k odict" where
  "refresh_keys [] request_time d = Inr d"
| "refresh_keys (key # keys) request_time d =
     (if contains d key then
        (case move_to_end key (setitem key (0, request_time) d) of
           Inl e \<Rightarrow> Inl e
         | Inr d' \<Rightarrow> refresh_keys keys request_time d')
      else refresh_keys keys request_time d)"

text \<open>\<^verbatim>\<open>BatchRefreshCache._process_refresh_batch\<close>\<close>

definition process_refresh_batch ::
  "int \<Rightarrow> ('k, 'm) BatchRefreshCache_scheme \<Rightarrow> error + ('k, 'm) BatchRefreshCache_scheme" where
  "process_refresh_batch request_time s =
     (if int (length (refresh_batch s)) \<ge> max_request_size s then
        (case refresh_keys (refresh_batch s) request_time (cache s) of
           Inl e \<Rightarrow> Inl e
         | Inr d \<Rightarrow>
             Inr (s\<lparr>cache := d, batch_updates := batch_updates s + 1, refresh_batch := []\<rparr>))
      else Inr s)"

text \<open>
  The first loop of \<^verbatim>\<open>BatchRefreshCache.get\<close>: it collects \<^verbatim>\<open>near_expired_keys\<close> and
  reads \<^verbatim>\<open>self.refresh_batch\<close>, which does not change while the loop runs.
\<close>

fun collect_near_expired ::
  "'k list \<Rightarrow> int \<Rightarrow> ('k, 'm) BatchRefreshCache_scheme \<Rightarrow> 'k list \<Rightarrow> 'k list" where
  "collect_near_expired [] request_time s near_expired_keys = near_expired_keys"
| "collect_near_expired (key # keys) request_time s near_expired_keys =
     (case map_of (cache s) key of
        Some (_, timestamp) \<Rightarrow>
          if \<not> is_expired_at_time s timestamp request_time then
            if is_near_expiration s timestamp request_time then
              if key \<notin> set (refresh_batch s) then
                collect_near_expired keys request_time s (near_expired_keys @ [key])
              else collect_near_expired keys request_time s near_expired_keys
            else collect_near_expired keys request_time s near_expired_keys
          else collect_near_expired keys request_time s near_expired_keys
      | None \<Rightarrow> collect_near_expired keys request_time s near_expired_keys)"

text \<open>\<^verbatim>\<open>BatchRefreshCache.get\<close>\<close>

definition batch_get ::
  "'k list \<Rightarrow> int \<Rightarrow> ('k, 'm) BatchRefreshCache_scheme \<Rightarrow>
   error + (int list \<times> ('k, 'm) BatchRefreshCache_scheme)" where
  "batch_get keys request_time s =
     (if keys = [] then Inr ([], s)
      else
        let near_expired_keys = collect_near_expired keys request_time s [];
            s1 = s\<lparr>refresh_batch := refresh_batch s @ near_expired_keys\<rparr>
        in case get keys request_time s1 of
             Inl e \<Rightarrow> Inl e
           | Inr (results, s2) \<Rightarrow>
               (case process_refresh_batch request_time s2 of
                  Inl e \<Rightarrow> Inl e
                | Inr s3 \<Rightarrow> Inr (results, s3)))"

text \<open>Replaying a trace of requests, as the drivers of the repository do.\<close>

fun run ::
  "('k list \<times> int) list \<Rightarrow> ('k, 'm) LRUCache_scheme \<Rightarrow> error + ('k, 'm) LRUCache_scheme" where
  "run [] s = Inr s"
| "run ((keys, request_time) # calls) s =
     (case get keys request_time s of
        Inl e \<Rightarrow> Inl e
      | Inr (_, s') \<Rightarrow> run calls s')"

fun batch_run ::
  "('k list \<times> int) list \<Rightarrow> ('k, 'm) BatchRefreshCache_scheme \<Rightarrow>
   error + ('k, 'm) BatchRefreshCache_scheme" where
  "batch_run [] s = Inr s"
| "batch_run ((keys, request_time) # calls) s =
     (case batch_get keys request_time s of
        Inl e \<Rightarrow> Inl e
      | Inr (_, s') \<Rightarrow> batch_run calls s')"

text \<open>
  Construct a cache and send it every request of a trace in turn, as
  \<^verbatim>\<open>simulate_cache_with_bullets\<close> does for the base cache. The configuration and the
  trace are parameters.
\<close>

definition LRUCache_replay ::
  "int \<Rightarrow> int \<Rightarrow> ('k list \<times> int) list \<Rightarrow> error + 'k LRUCache" where
  "LRUCache_replay max_size0 ttl0 bullets =
     (case LRUCache_init max_size0 ttl0 of
        Inl e \<Rightarrow> Inl e
      | Inr cache0 \<Rightarrow> run bullets cache0)"

definition BatchRefreshCache_replay ::
  "int \<Rightarrow> int \<Rightarrow> real \<Rightarrow> int \<Rightarrow> ('k list \<times> int) list \<Rightarrow> error + 'k BatchRefreshCache" where
  "BatchRefreshCache_replay max_size0 ttl0 half_ttl0 max_request_size0 bullets =
     (case BatchRefreshCache_init max_size0 ttl0 half_ttl0 max_request_size0 of
        Inl e \<Rightarrow> Inl e
      | Inr cache0 \<Rightarrow> batch_run bullets cache0)"

section \<open>Auxiliary notions\<close>

text \<open>Promotion of a key that may be absent: what a hit does to the dictionary.\<close>

definition touch :: "'k \<Rightarrow> 'k odict \<Rightarrow> 'k odict" where
  "touch k d = (case map_of d k of None \<Rightarrow> d | Some v \<Rightarrow> remove_key k d @ [(k, v)])"

text \<open>Storing \<^verbatim>\<open>(0, t)\<close> under a key and moving it to the end.\<close>

definition renew :: "int \<Rightarrow> 'k \<Rightarrow> 'k odict \<Rightarrow> 'k odict" where
  "renew t k d = remove_key k d @ [(k, (0, t))]"

text \<open>The three classes of the first loop of \<^verbatim>\<open>LRUCache.get\<close>.\<close>

definition is_absent :: "('k, 'm) LRUCache_scheme \<Rightarrow> 'k \<Rightarrow> bool" where
  "is_absent s k = (map_of (cache s) k = None)"

definition is_stale :: "('k, 'm) LRUCache_scheme \<Rightarrow> int \<Rightarrow> 'k \<Rightarrow> bool" where
  "is_stale s t k =
     (case map_of (cache s) k of None \<Rightarrow> False | Some (_, ts) \<Rightarrow> is_expired_at_time s ts t)"

definition is_fresh :: "('k, 'm) LRUCache_scheme \<Rightarrow> int \<Rightarrow> 'k \<Rightarrow> bool" where
  "is_fresh s t k =
     (case map_of (cache s) k of None \<Rightarrow> False | Some (_, ts) \<Rightarrow> \<not> is_expired_at_time s ts t)"

text \<open>
  What the insertion loop may do to the dictionary when it inserts the keys \<open>K\<close> at
  time \<open>t\<close>: it keeps the capacity bound and the distinctness of the keys, and an
  entry that is there afterwards either carries the timestamp \<open>t\<close> or belongs to a
  key outside \<open>K\<close> and is as it was.
\<close>

definition admits :: "int \<Rightarrow> int \<Rightarrow> 'k set \<Rightarrow> 'k odict \<Rightarrow> 'k odict \<Rightarrow> bool" where
  "admits cap t K d d' \<longleftrightarrow>
     (int (length d) \<le> cap \<longrightarrow> int (length d') \<le> cap) \<and>
     (distinct (map fst d) \<longrightarrow>
        distinct (map fst d') \<and>
        (\<forall>k. map_of d' k = None \<or> map_of d' k = Some (0, t) \<or>
             (k \<notin> K \<and> map_of d' k = map_of d k)))"

text \<open>One round of the loop of \<^verbatim>\<open>_process_refresh_batch\<close>.\<close>

definition refresh_one :: "int \<Rightarrow> 'k \<Rightarrow> 'k odict \<Rightarrow> 'k odict" where
  "refresh_one t k d = (if contains d k then renew t k d else d)"

text \<open>The representation invariant of the dictionary together with the capacity bound.\<close>

definition bounded :: "('k, 'm) LRUCache_scheme \<Rightarrow> bool" where
  "bounded s \<longleftrightarrow> int (length (cache s)) \<le> max_size s \<and> distinct (map fst (cache s))"


text \<open>
  The two sides of the TTL boundary in the words of the specification: the age of the
  entry of a present key, in microseconds, against \<^verbatim>\<open>ttl\<close>.
\<close>

definition within_ttl :: "('k, 'm) LRUCache_scheme \<Rightarrow> int \<Rightarrow> 'k \<Rightarrow> bool" where
  "within_ttl s t k =
     (case map_of (cache s) k of None \<Rightarrow> False | Some (_, ts) \<Rightarrow> t - ts \<le> ttl s)"

definition beyond_ttl :: "('k, 'm) LRUCache_scheme \<Rightarrow> int \<Rightarrow> 'k \<Rightarrow> bool" where
  "beyond_ttl s t k =
     (case map_of (cache s) k of None \<Rightarrow> False | Some (_, ts) \<Rightarrow> t - ts > ttl s)"


section \<open>Properties\<close>

subsection \<open>Rounding to doubles\<close>

lemma bit_length_upper: "n < 2 ^ bit_length n"
proof (induction n rule: bit_length.induct)
  case (1 n)
  show ?case
  proof (cases "n = 0")
    case True
    then show ?thesis by (simp add: bit_length.simps)
  next
    case False
    then have "n div 2 < 2 ^ bit_length (n div 2)" by (rule "1.IH")
    then have "n < 2 * 2 ^ bit_length (n div 2)" by linarith
    then show ?thesis using False by (subst bit_length.simps) simp
  qed
qed

lemma bit_length_lower: "0 < n \<Longrightarrow> 2 ^ (bit_length n - 1) \<le> n"
proof (induction n rule: bit_length.induct)
  case (1 n)
  then have n: "n \<noteq> 0" by simp
  have b: "bit_length n = Suc (bit_length (n div 2))"
    using n by (subst bit_length.simps) simp
  show ?case
  proof (cases "n div 2 = 0")
    case True
    then show ?thesis using n b by (simp add: bit_length.simps[of 0])
  next
    case False
    then have "2 ^ (bit_length (n div 2) - 1) \<le> n div 2" using "1.IH"[OF n] by simp
    moreover have "bit_length (n div 2) \<noteq> 0"
      using False by (subst bit_length.simps) simp
    then have "(2::nat) ^ bit_length (n div 2) = 2 * 2 ^ (bit_length (n div 2) - 1)"
      by (cases "bit_length (n div 2)") simp_all
    ultimately have "2 ^ bit_length (n div 2) \<le> n" by linarith
    then show ?thesis by (simp add: b)
  qed
qed

lemma bit_length_pos: "0 < n \<Longrightarrow> 0 < bit_length n"
  by (subst bit_length.simps) simp

lemma floor_log2_lower:
  assumes "0 < y"
  shows "2 powi floor_log2 y \<le> y"
proof (cases "1 \<le> y")
  case True
  let ?n = "nat \<lfloor>y\<rfloor>"
  have n: "0 < ?n" using True by simp
  have "floor_log2 y = int (bit_length ?n - 1)"
    using True bit_length_pos[OF n] by (simp add: floor_log2_def)
  then have "2 powi floor_log2 y = (2::real) ^ (bit_length ?n - 1)" by simp
  also have "\<dots> = real (2 ^ (bit_length ?n - 1))" by simp
  also have "\<dots> \<le> real ?n" using bit_length_lower[OF n] by (simp only: of_nat_le_iff)
  also have "\<dots> \<le> y" using True by simp
  finally show ?thesis .
next
  case False
  let ?m = "nat (\<lceil>1 / y\<rceil> - 1)"
  have "1 / y \<le> of_int \<lceil>1 / y\<rceil>" by (rule le_of_int_ceiling)
  also have "\<dots> \<le> real ?m + 1" by simp
  also have "\<dots> = real (Suc ?m)" by simp
  also have "\<dots> \<le> real (2 ^ bit_length ?m)"
    using bit_length_upper[of ?m] by (simp only: of_nat_le_iff Suc_le_eq)
  finally have "1 / y \<le> 2 ^ bit_length ?m" by simp
  then have "1 / 2 ^ bit_length ?m \<le> y"
    using assms by (simp add: field_simps)
  moreover have "floor_log2 y = - int (bit_length ?m)"
    using False by (simp add: floor_log2_def)
  ultimately show ?thesis by (simp add: power_int_minus_divide)
qed


lemma floor_log2_less:
  assumes "0 < y" and "y < 2 powi K"
  shows "floor_log2 y < K"
proof (rule ccontr)
  assume "\<not> floor_log2 y < K"
  then have "K \<le> floor_log2 y" by simp
  then have "(2::real) powi K \<le> 2 powi floor_log2 y" by (intro power_int_increasing) simp_all
  then show False using floor_log2_lower[OF assms(1)] assms(2) by linarith
qed

lemma round_half_even_cases:
  "round_half_even z = \<lfloor>z\<rfloor> \<and> z - of_int \<lfloor>z\<rfloor> \<le> 1 / 2 \<or>
   round_half_even z = \<lfloor>z\<rfloor> + 1 \<and> 1 / 2 \<le> z - of_int \<lfloor>z\<rfloor>"
  by (auto simp: round_half_even_def Let_def)

lemma round_half_even_error: "\<bar>of_int (round_half_even z) - z\<bar> \<le> 1 / 2"
proof -
  have "of_int \<lfloor>z\<rfloor> \<le> z" "z < of_int \<lfloor>z\<rfloor> + 1" by linarith+
  then show ?thesis using round_half_even_cases[of z] by auto
qed






lemma round_double_error:
  assumes "\<bar>x\<bar> < 2 powi K"
  shows "\<bar>round_double x - x\<bar> \<le> 2 powi (max (K - 53) (- 1074) - 1)"
proof (cases "x = 0")
  case True
  then show ?thesis by (simp add: round_double_def)
next
  case False
  define e where "e = max (floor_log2 \<bar>x\<bar> - 52) (- 1074)"
  define p :: real where "p = 2 powi e"
  have p: "0 < p" by (simp add: p_def)
  have "floor_log2 \<bar>x\<bar> < K" using False assms by (intro floor_log2_less) simp_all
  then have "e - 1 \<le> max (K - 53) (- 1074) - 1" by (simp add: e_def)
  then have pe: "(2::real) powi (e - 1) \<le> 2 powi (max (K - 53) (- 1074) - 1)"
    by (intro power_int_increasing) simp_all
  have r: "round_double x = of_int (round_half_even (x / p)) * p"
    using False by (simp add: round_double_def e_def p_def Let_def)
  have "round_double x - x = (of_int (round_half_even (x / p)) - x / p) * p"
    using p by (simp add: r field_simps)
  then have "\<bar>round_double x - x\<bar> = \<bar>of_int (round_half_even (x / p)) - x / p\<bar> * p"
    using p by (simp add: abs_mult)
  also have "\<dots> \<le> 1 / 2 * p"
    using round_half_even_error[of "x / p"] p by (intro mult_right_mono) simp_all
  also have "\<dots> = 2 powi (e - 1)"
    by (simp add: p_def power_int_diff)
  finally show ?thesis using pe by linarith
qed





lemma true_div_zero [simp]: "true_div 0 b = 0"
  by (simp add: true_div_def round_double_def)

lemma total_seconds_zero [simp]: "total_seconds 0 = 0"
  by (simp add: total_seconds_def)



subsection \<open>The ordered dictionary\<close>

lemma remove_key_filter: "remove_key k d = filter (\<lambda>e. fst e \<noteq> k) d"
  by (induction d) auto

lemma keys_remove_key: "map fst (remove_key k d) = removeAll k (map fst d)"
  by (induction d) auto

lemma distinct_remove_key: "distinct (map fst d) \<Longrightarrow> distinct (map fst (remove_key k d))"
  by (simp add: keys_remove_key distinct_removeAll)

lemma length_remove_key: "length (remove_key k d) \<le> length d"
  by (induction d) auto

lemma length_remove_key_less:
  "k \<in> fst ` set d \<Longrightarrow> length (remove_key k d) < length d"
proof (induction d)
  case Nil
  then show ?case by simp
next
  case (Cons e d)
  show ?case
  proof (cases "fst e = k")
    case True
    then show ?thesis using length_remove_key[of k d] by simp
  next
    case False
    then have "k \<in> fst ` set d" using Cons.prems by auto
    then show ?thesis using False Cons.IH by simp
  qed
qed

lemma map_of_remove_key: "map_of (remove_key k d) = (map_of d)(k := None)"
  by (induction d) (auto simp: fun_eq_iff)

lemma map_of_setitem: "map_of (setitem k v d) = (map_of d)(k \<mapsto> v)"
  by (induction d) (auto simp: fun_eq_iff)

lemma keys_setitem:
  "map fst (setitem k v d) = (if k \<in> fst ` set d then map fst d else map fst d @ [k])"
  by (induction d) auto

lemma distinct_setitem: "distinct (map fst d) \<Longrightarrow> distinct (map fst (setitem k v d))"
  by (simp add: keys_setitem)

lemma length_setitem:
  "length (setitem k v d) = (if k \<in> fst ` set d then length d else Suc (length d))"
  by (induction d) auto

lemma setitem_absent: "map_of d k = None \<Longrightarrow> setitem k v d = d @ [(k, v)]"
proof (induction d)
  case Nil
  show ?case by simp
next
  case (Cons e d)
  then show ?case by (cases e) (auto split: if_splits)
qed

lemma remove_key_setitem: "remove_key k (setitem k v d) = remove_key k d"
  by (induction d) auto

lemma move_to_end_setitem: "move_to_end k (setitem k v d) = Inr (remove_key k d @ [(k, v)])"
  by (simp add: move_to_end_def map_of_setitem remove_key_setitem)

lemma set_keys_map_of: "k \<in> fst ` set d \<longleftrightarrow> map_of d k \<noteq> None"
  by (simp add: map_of_eq_None_iff)

lemma contains_iff: "contains d k \<longleftrightarrow> k \<in> fst ` set d"
  by (simp add: contains_def map_of_eq_None_iff)

subsection \<open>Promotion and renewal\<close>

lemma map_of_touch: "map_of (touch k d) = map_of d"
  by (auto simp: touch_def map_of_remove_key fun_eq_iff map_add_def split: option.splits)

lemma map_of_fold_touch: "map_of (fold touch ks d) = map_of d"
  by (induction ks arbitrary: d) (simp_all add: map_of_touch)

lemma keys_touch: "fst ` set (touch k d) = fst ` set d"
  using map_of_touch[of k d] by (metis dom_map_of_conv_image_fst)

lemma keys_fold_touch: "fst ` set (fold touch ks d) = fst ` set d"
  using map_of_fold_touch[of ks d] by (metis dom_map_of_conv_image_fst)

lemma distinct_touch: "distinct (map fst d) \<Longrightarrow> distinct (map fst (touch k d))"
  by (auto simp: touch_def keys_remove_key distinct_removeAll split: option.splits)

lemma length_touch: "length (touch k d) \<le> length d"
proof (cases "map_of d k")
  case None
  then show ?thesis by (simp add: touch_def)
next
  case (Some v)
  then have "k \<in> fst ` set d" by (simp add: set_keys_map_of)
  then have "length (remove_key k d) < length d" by (rule length_remove_key_less)
  then show ?thesis using Some by (simp add: touch_def)
qed

lemma distinct_fold_touch: "distinct (map fst d) \<Longrightarrow> distinct (map fst (fold touch ks d))"
  by (induction ks arbitrary: d) (simp_all add: distinct_touch)

lemma length_fold_touch: "length (fold touch ks d) \<le> length d"
proof (induction ks arbitrary: d)
  case Nil
  show ?case by simp
next
  case (Cons k ks)
  have "length (fold touch ks (touch k d)) \<le> length (touch k d)" by (rule Cons.IH)
  also have "\<dots> \<le> length d" by (rule length_touch)
  finally show ?case by simp
qed

lemma distinct_renew: "distinct (map fst d) \<Longrightarrow> distinct (map fst (renew t k d))"
  by (simp add: renew_def keys_remove_key distinct_removeAll)

lemma map_of_renew: "map_of (renew t k d) = (map_of d)(k \<mapsto> (0, t))"
  by (auto simp: renew_def map_of_remove_key fun_eq_iff map_add_def split: option.splits)

lemma length_renew: "k \<in> fst ` set d \<Longrightarrow> length (renew t k d) \<le> length d"
  using length_remove_key_less[of k d] by (simp add: renew_def)

lemma keys_renew: "fst ` set (renew t k d) = insert k (fst ` set d)"
  using keys_remove_key[of k d] by (auto simp: renew_def remove_key_filter)

lemma distinct_fold_renew:
  "distinct (map fst d) \<Longrightarrow> distinct (map fst (fold (renew t) ks d))"
  by (induction ks arbitrary: d) (simp_all add: distinct_renew)

lemma map_of_fold_renew:
  "map_of (fold (renew t) ks d) k = (if k \<in> set ks then Some (0, t) else map_of d k)"
  by (induction ks arbitrary: d) (auto simp: map_of_renew)

lemma length_fold_renew:
  "set ks \<subseteq> fst ` set d \<Longrightarrow> length (fold (renew t) ks d) \<le> length d"
proof (induction ks arbitrary: d)
  case Nil
  show ?case by simp
next
  case (Cons k ks)
  then have k: "k \<in> fst ` set d" and ks: "set ks \<subseteq> fst ` set (renew t k d)"
    by (auto simp: keys_renew)
  have "length (fold (renew t) ks (renew t k d)) \<le> length (renew t k d)"
    using ks by (rule Cons.IH)
  also have "\<dots> \<le> length d" using k by (rule length_renew)
  finally show ?case by simp
qed

subsection \<open>The loops of \<^verbatim>\<open>LRUCache.get\<close>\<close>

lemma classify_keys_eq:
  "classify_keys keys t (results, missing, expired, s) =
     Inr (results @ replicate (length keys) 0,
          missing @ filter (is_absent s) keys,
          expired @ filter (is_stale s t) keys,
          s\<lparr>cache := fold touch (filter (is_fresh s t) keys) (cache s),
            hits := hits s + int (length (filter (is_fresh s t) keys))\<rparr>)"
proof (induction keys arbitrary: results missing expired s)
  case Nil
  show ?case by simp
next
  case (Cons k keys)
  show ?case
  proof (cases "map_of (cache s) k")
    case None
    then have "is_absent s k" "\<not> is_stale s t k" "\<not> is_fresh s t k"
      by (simp_all add: is_absent_def is_stale_def is_fresh_def)
    then show ?thesis using None Cons.IH[of "results @ [0]" "missing @ [k]" expired s]
      by (simp add: replicate_append_same)
  next
    case (Some v)
    obtain z ts where v: "v = (z, ts)" by (cases v)
    show ?thesis
    proof (cases "is_expired_at_time s ts t")
      case True
      then have "\<not> is_absent s k" "is_stale s t k" "\<not> is_fresh s t k"
        using Some v by (simp_all add: is_absent_def is_stale_def is_fresh_def)
      then show ?thesis using Some v True Cons.IH[of "results @ [0]" missing "expired @ [k]" s]
        by (simp add: replicate_append_same)
    next
      case False
      then have c: "\<not> is_absent s k" "\<not> is_stale s t k" "is_fresh s t k"
        using Some v by (simp_all add: is_absent_def is_stale_def is_fresh_def)
      let ?s1 = "s\<lparr>cache := touch k (cache s), hits := hits s + 1\<rparr>"
      have m: "move_to_end k (cache s) = Inr (touch k (cache s))"
        using Some by (simp add: move_to_end_def touch_def)
      have p: "is_absent ?s1 = is_absent s" "is_stale ?s1 t = is_stale s t"
        "is_fresh ?s1 t = is_fresh s t"
        by (auto simp: fun_eq_iff is_absent_def is_stale_def is_fresh_def map_of_touch
            is_expired_at_time_def split: option.splits)
      show ?thesis using Some v False c m Cons.IH[of "results @ [0]" missing expired ?s1]
        by (simp add: replicate_append_same p)
    qed
  qed
qed

lemma reinsert_expired_eq:
  "reinsert_expired keys t s =
     Inr (s\<lparr>cache := fold (renew t) keys (cache s),
            expirations := expirations s + int (length keys)\<rparr>)"
  by (induction keys arbitrary: s) (simp_all add: move_to_end_setitem renew_def)

lemma classes_exhaustive: "is_absent s k \<or> is_stale s t k \<or> is_fresh s t k"
  by (auto simp: is_absent_def is_stale_def is_fresh_def split: option.splits)

lemma is_fresh_not_others: "is_fresh s t k \<Longrightarrow> \<not> is_absent s k \<and> \<not> is_stale s t k"
  by (auto simp: is_absent_def is_stale_def is_fresh_def split: option.splits)

lemma is_stale_not_others: "is_stale s t k \<Longrightarrow> \<not> is_absent s k \<and> \<not> is_fresh s t k"
  by (auto simp: is_absent_def is_stale_def is_fresh_def split: option.splits)

lemma is_stale_present: "is_stale s t k \<Longrightarrow> k \<in> fst ` set (cache s)"
  by (auto simp: is_stale_def split: option.splits dest: map_of_SomeD intro: rev_image_eqI)




lemma within_not_beyond: "within_ttl s t k \<Longrightarrow> \<not> beyond_ttl s t k"
  by (auto simp: within_ttl_def beyond_ttl_def split: option.splits)

subsection \<open>The insertion loop\<close>

lemma admits_refl: "admits cap t {} d d"
  by (simp add: admits_def)

lemma admits_trans:
  "admits cap t K d0 d1 \<Longrightarrow> admits cap t L d1 d2 \<Longrightarrow> admits cap t (K \<union> L) d0 d2"
proof -
  assume a: "admits cap t K d0 d1" and b: "admits cap t L d1 d2"
  have len: "int (length d0) \<le> cap \<longrightarrow> int (length d2) \<le> cap"
    using a b unfolding admits_def by blast
  have rest: "distinct (map fst d2) \<and>
      (\<forall>k. map_of d2 k = None \<or> map_of d2 k = Some (0, t) \<or>
           (k \<notin> K \<union> L \<and> map_of d2 k = map_of d0 k))" if d: "distinct (map fst d0)"
  proof -
    have d1: "distinct (map fst d1)"
      and p1: "\<And>k. map_of d1 k = None \<or> map_of d1 k = Some (0, t) \<or>
           (k \<notin> K \<and> map_of d1 k = map_of d0 k)"
      using a d unfolding admits_def by blast+
    have d2: "distinct (map fst d2)"
      and p2: "\<And>k. map_of d2 k = None \<or> map_of d2 k = Some (0, t) \<or>
           (k \<notin> L \<and> map_of d2 k = map_of d1 k)"
      using b d1 unfolding admits_def by blast+
    have "map_of d2 k = None \<or> map_of d2 k = Some (0, t) \<or>
           (k \<notin> K \<union> L \<and> map_of d2 k = map_of d0 k)" for k
      using p1[of k] p2[of k] by auto
    then show ?thesis using d2 by blast
  qed
  show ?thesis unfolding admits_def using len rest by blast
qed

lemma admits_insert_room:
  assumes "\<not> cap \<le> int (length d)"
  shows "admits cap t {k} d (setitem k (0, t) d)"
  using assms by (auto simp: admits_def length_setitem distinct_setitem map_of_setitem)

lemma admits_insert_full:
  assumes "cap \<le> int (length (e # d))"
  shows "admits cap t {k} (e # d) (setitem k (0, t) d)"
proof -
  have m: "distinct (map fst (e # d)) \<Longrightarrow> map_of d (fst e) = None"
    by (simp add: map_of_eq_None_iff)
  have "distinct (map fst (e # d)) \<Longrightarrow>
      map_of (setitem k (0, t) d) x = None \<or> map_of (setitem k (0, t) d) x = Some (0, t) \<or>
      (x \<notin> {k} \<and> map_of (setitem k (0, t) d) x = map_of (e # d) x)" for x
    using m by (cases e) (auto simp: map_of_setitem)
  then show ?thesis
    using assms by (auto simp: admits_def length_setitem distinct_setitem)
qed

lemma add_keys_to_cache_result:
  assumes "add_keys_to_cache keys t s = Inr s'"
  shows "\<exists>d n. s' = s\<lparr>cache := d, evictions := evictions s + n\<rparr> \<and>
           0 \<le> n \<and> admits (max_size s) t (set keys) (cache s) d"
  using assms
proof (induction keys arbitrary: s)
  case Nil
  then have "s' = s\<lparr>cache := cache s, evictions := evictions s + 0\<rparr>" by simp
  moreover have "admits (max_size s) t (set []) (cache s) (cache s)"
    using admits_refl[of "max_size s" t "cache s"] by simp
  ultimately show ?case by (intro exI[of _ "cache s"] exI[of _ 0]) simp
next
  case (Cons k keys)
  show ?case
  proof (cases "max_size s \<le> int (length (cache s))")
    case True
    then obtain e d0 where c: "cache s = e # d0"
      using Cons.prems by (cases "cache s") (auto simp: popitem_first_def)
    let ?s1 = "s\<lparr>cache := setitem k (0, t) d0, evictions := evictions s + 1\<rparr>"
    have "add_keys_to_cache keys t ?s1 = Inr s'"
      using Cons.prems True c by (simp add: popitem_first_def)
    from Cons.IH[OF this] obtain d n where
      r: "s' = ?s1\<lparr>cache := d, evictions := evictions ?s1 + n\<rparr>"
      and n: "0 \<le> n" and a: "admits (max_size s) t (set keys) (setitem k (0, t) d0) d"
      by auto
    have a0: "admits (max_size s) t {k} (cache s) (setitem k (0, t) d0)"
      using admits_insert_full[of "max_size s" e d0 t k] True c by simp
    have "admits (max_size s) t (set (k # keys)) (cache s) d"
      using admits_trans[OF a0 a] by simp
    moreover have "s' = s\<lparr>cache := d, evictions := evictions s + (1 + n)\<rparr>"
      using r by simp
    ultimately show ?thesis using n by (intro exI[of _ d] exI[of _ "1 + n"]) simp
  next
    case False
    let ?s1 = "s\<lparr>cache := setitem k (0, t) (cache s)\<rparr>"
    have "add_keys_to_cache keys t ?s1 = Inr s'" using Cons.prems False by simp
    from Cons.IH[OF this] obtain d n where
      r: "s' = ?s1\<lparr>cache := d, evictions := evictions ?s1 + n\<rparr>"
      and n: "0 \<le> n" and a: "admits (max_size s) t (set keys) (setitem k (0, t) (cache s)) d"
      by auto
    have a0: "admits (max_size s) t {k} (cache s) (setitem k (0, t) (cache s))"
      using admits_insert_room[of "max_size s" "cache s" t k] False by simp
    have "admits (max_size s) t (set (k # keys)) (cache s) d"
      using admits_trans[OF a0 a] by simp
    moreover have "s' = s\<lparr>cache := d, evictions := evictions s + n\<rparr>"
      using r by simp
    ultimately show ?thesis using n by (intro exI[of _ d] exI[of _ n]) simp
  qed
qed

lemma add_keys_to_cache_returns:
  assumes "1 \<le> max_size s"
  shows "\<exists>s'. add_keys_to_cache keys t s = Inr s'"
  using assms
proof (induction keys arbitrary: s)
  case Nil
  show ?case by simp
next
  case (Cons k keys)
  show ?case
  proof (cases "max_size s \<le> int (length (cache s))")
    case True
    then obtain e d0 where c: "cache s = e # d0" using Cons.prems by (cases "cache s") auto
    have "1 \<le> max_size (s\<lparr>cache := setitem k (0, t) d0, evictions := evictions s + 1\<rparr>)"
      using Cons.prems by simp
    from Cons.IH[OF this] show ?thesis using True c by (simp add: popitem_first_def)
  next
    case False
    have "1 \<le> max_size (s\<lparr>cache := setitem k (0, t) (cache s)\<rparr>)" using Cons.prems by simp
    from Cons.IH[OF this] show ?thesis using False by simp
  qed
qed

subsection \<open>\<^verbatim>\<open>LRUCache.get\<close> in closed form\<close>

lemma get_unfold:
  "get keys t s =
     (case add_keys_to_cache (filter (is_absent s) keys) t
             (s\<lparr>hits := hits s + int (length (filter (is_fresh s t) keys)),
                cache := fold (renew t) (filter (is_stale s t) keys)
                            (fold touch (filter (is_fresh s t) keys) (cache s)),
                expirations := expirations s + int (length (filter (is_stale s t) keys))\<rparr>) of
        Inl e \<Rightarrow> Inl e
      | Inr s3 \<Rightarrow>
          Inr (replicate (length keys) 0,
               s3\<lparr>misses := misses s3 + int (length (filter (is_absent s) keys)) +
                              int (length (filter (is_stale s t) keys)),
                  bulk_misses := bulk_misses s3 +
                    (if filter (is_absent s) keys = [] \<and> filter (is_stale s t) keys = []
                     then 0 else 1)\<rparr>))"
proof (cases "keys = []")
  case True
  then show ?thesis by (simp add: get_def)
next
  case False
  show ?thesis
  proof (cases "filter (is_absent s) keys = []")
    case True
    then show ?thesis using False
      by (simp add: get_def classify_keys_eq reinsert_expired_eq Let_def)
  next
    case F2: False
    then show ?thesis using False
      by (simp add: get_def classify_keys_eq reinsert_expired_eq Let_def split: sum.splits)
  qed
qed

lemma get_result:
  assumes "get keys t s = Inr (res, s')"
  shows "res = replicate (length keys) 0 \<and>
         (\<exists>d n. s' = s\<lparr>hits := hits s + int (length (filter (is_fresh s t) keys)),
                  cache := d,
                  expirations := expirations s + int (length (filter (is_stale s t) keys)),
                  evictions := evictions s + n,
                  misses := misses s + int (length (filter (is_absent s) keys)) +
                              int (length (filter (is_stale s t) keys)),
                  bulk_misses := bulk_misses s +
                    (if filter (is_absent s) keys = [] \<and> filter (is_stale s t) keys = []
                     then 0 else 1)\<rparr> \<and>
           0 \<le> n \<and>
           admits (max_size s) t (set (filter (is_absent s) keys))
             (fold (renew t) (filter (is_stale s t) keys)
                (fold touch (filter (is_fresh s t) keys) (cache s))) d)"
proof -
  let ?s2 = "s\<lparr>hits := hits s + int (length (filter (is_fresh s t) keys)),
                cache := fold (renew t) (filter (is_stale s t) keys)
                            (fold touch (filter (is_fresh s t) keys) (cache s)),
                expirations := expirations s + int (length (filter (is_stale s t) keys))\<rparr>"
  obtain s3 where s3: "add_keys_to_cache (filter (is_absent s) keys) t ?s2 = Inr s3"
    using assms by (auto simp: get_unfold split: sum.splits)
  from add_keys_to_cache_result[OF s3] obtain d n where
    r: "s3 = ?s2\<lparr>cache := d, evictions := evictions ?s2 + n\<rparr>"
    and n: "0 \<le> n"
    and a: "admits (max_size ?s2) t (set (filter (is_absent s) keys)) (cache ?s2) d"
    by blast
  have res: "res = replicate (length keys) 0"
    using assms s3 by (simp add: get_unfold)
  have "s' = s3\<lparr>misses := misses s3 + int (length (filter (is_absent s) keys)) +
                              int (length (filter (is_stale s t) keys)),
                  bulk_misses := bulk_misses s3 +
                    (if filter (is_absent s) keys = [] \<and> filter (is_stale s t) keys = []
                     then 0 else 1)\<rparr>"
    using assms s3 by (simp add: get_unfold)
  then show ?thesis
    using res n a r by (intro conjI exI[of _ d] exI[of _ n]) simp_all
qed

lemma get_returns:
  assumes "1 \<le> max_size s"
  shows "\<exists>s'. get keys t s = Inr (replicate (length keys) 0, s')"
proof -
  let ?s2 = "s\<lparr>hits := hits s + int (length (filter (is_fresh s t) keys)),
                cache := fold (renew t) (filter (is_stale s t) keys)
                            (fold touch (filter (is_fresh s t) keys) (cache s)),
                expirations := expirations s + int (length (filter (is_stale s t) keys))\<rparr>"
  have "1 \<le> max_size ?s2" using assms by simp
  from add_keys_to_cache_returns[OF this, of "filter (is_absent s) keys" t]
  obtain s3 where "add_keys_to_cache (filter (is_absent s) keys) t ?s2 = Inr s3" by blast
  then show ?thesis by (simp add: get_unfold)
qed

lemma get_hit:
  assumes "is_fresh s t k"
  shows "get [k] t s = Inr ([0], s\<lparr>hits := hits s + 1, cache := touch k (cache s)\<rparr>)"
  using assms is_fresh_not_others[OF assms] by (simp add: get_unfold)

lemma get_expired:
  assumes "is_stale s t k"
  shows "get [k] t s =
           Inr ([0], s\<lparr>cache := renew t k (cache s), expirations := expirations s + 1,
                       misses := misses s + 1, bulk_misses := bulk_misses s + 1\<rparr>)"
  using assms is_stale_not_others[OF assms] by (simp add: get_unfold)

text \<open>
  One absent key on a full cache: the oldest entry alone is evicted and the key is
  appended, which is what the insertion loop does for keys that are really new.
\<close>

lemma absent_key_on_full_cache:
  assumes "map_of (e # d) k = None" and "cache s = e # d" and "max_size s \<le> int (length (e # d))"
  shows "get [k] t s =
           Inr ([0], s\<lparr>cache := d @ [(k, (0, t))], evictions := evictions s + 1,
                       misses := misses s + 1, bulk_misses := bulk_misses s + 1\<rparr>)"
proof -
  have a: "is_absent s k" using assms(1,2) by (simp add: is_absent_def)
  then have n: "\<not> is_stale s t k" "\<not> is_fresh s t k"
    by (simp_all add: is_absent_def is_stale_def is_fresh_def)
  have "map_of d k = None" using assms(1) by (cases e) (auto split: if_splits)
  then have "setitem k (0, t) d = d @ [(k, (0, t))]" by (rule setitem_absent)
  then show ?thesis
    using a n assms(2,3) by (simp add: get_unfold popitem_first_def)
qed

lemma get_bounded:
  assumes "1 \<le> max_size s" and "bounded s"
  shows "\<exists>s'. get keys t s = Inr (replicate (length keys) 0, s') \<and> bounded s' \<and>
           max_size s' = max_size s \<and> LRUCache.more s' = LRUCache.more s"
proof -
  let ?F = "filter (is_fresh s t) keys" and ?E = "filter (is_stale s t) keys"
  let ?d2 = "fold (renew t) ?E (fold touch ?F (cache s))"
  from get_returns[OF assms(1), of keys t] obtain s' where
    g: "get keys t s = Inr (replicate (length keys) 0, s')" by blast
  from get_result[OF g] obtain d n where
    s': "s' = s\<lparr>hits := hits s + int (length ?F), cache := d,
                  expirations := expirations s + int (length ?E),
                  evictions := evictions s + n,
                  misses := misses s + int (length (filter (is_absent s) keys)) + int (length ?E),
                  bulk_misses := bulk_misses s +
                    (if filter (is_absent s) keys = [] \<and> ?E = [] then 0 else 1)\<rparr>"
    and a: "admits (max_size s) t (set (filter (is_absent s) keys)) ?d2 d"
    by blast
  have "set ?E \<subseteq> fst ` set (fold touch ?F (cache s))"
    by (auto simp: keys_fold_touch dest: is_stale_present)
  then have "length ?d2 \<le> length (fold touch ?F (cache s))" by (rule length_fold_renew)
  also have "\<dots> \<le> length (cache s)" by (rule length_fold_touch)
  finally have l2: "int (length ?d2) \<le> max_size s" using assms(2) by (simp add: bounded_def)
  have d2: "distinct (map fst ?d2)"
    using assms(2) by (simp add: bounded_def distinct_fold_renew distinct_fold_touch)
  have "int (length d) \<le> max_size s \<and> distinct (map fst d)"
    using a l2 d2 unfolding admits_def by blast
  then have "bounded s'" by (simp add: s' bounded_def)
  then show ?thesis using g by (simp add: s')
qed

lemma run_bounded:
  assumes "1 \<le> max_size s" and "bounded s"
  shows "\<exists>s'. run calls s = Inr s' \<and> bounded s' \<and> max_size s' = max_size s"
  using assms
proof (induction calls arbitrary: s)
  case Nil
  then show ?case by simp
next
  case (Cons c calls)
  obtain keys t where c: "c = (keys, t)" by (cases c)
  from get_bounded[OF Cons.prems, of keys t] obtain s1 where
    g: "get keys t s = Inr (replicate (length keys) 0, s1)" and b: "bounded s1"
    and m: "max_size s1 = max_size s" by blast
  have "1 \<le> max_size s1" using m Cons.prems(1) by simp
  from Cons.IH[OF this b] obtain s' where
    "run calls s1 = Inr s'" "bounded s'" "max_size s' = max_size s1" by blast
  then show ?case using c g m by simp
qed

lemma requested_key_fresh_after_get:
  assumes d: "distinct (map fst (cache s))" and z: "0 \<le> ttl_seconds s"
    and g: "get keys t s = Inr (res, s')" and k: "k \<in> set keys"
    and c: "contains (cache s') k"
  shows "is_fresh s' t k"
proof -
  let ?F = "filter (is_fresh s t) keys" and ?E = "filter (is_stale s t) keys"
    and ?M = "filter (is_absent s) keys"
  let ?d2 = "fold (renew t) ?E (fold touch ?F (cache s))"
  from get_result[OF g] obtain dd n where
    s': "s' = s\<lparr>hits := hits s + int (length ?F), cache := dd,
                  expirations := expirations s + int (length ?E),
                  evictions := evictions s + n,
                  misses := misses s + int (length ?M) + int (length ?E),
                  bulk_misses := bulk_misses s + (if ?M = [] \<and> ?E = [] then 0 else 1)\<rparr>"
    and a: "admits (max_size s) t (set ?M) ?d2 dd"
    by blast
  have d2: "distinct (map fst ?d2)" using d by (simp add: distinct_fold_renew distinct_fold_touch)
  have cases: "map_of dd k = None \<or> map_of dd k = Some (0, t) \<or>
      (k \<notin> set ?M \<and> map_of dd k = map_of ?d2 k)"
    using a d2 unfolding admits_def by blast
  have present: "map_of dd k \<noteq> None" using c by (simp add: s' contains_def)
  have now: "\<not> is_expired_at_time s' t t"
    using z by (simp add: s' is_expired_at_time_def)
  have same: "is_expired_at_time s' ts t = is_expired_at_time s ts t" for ts
    by (simp add: s' is_expired_at_time_def)
  have "map_of dd k = Some (0, t) \<or>
      (\<exists>v ts. map_of dd k = Some (v, ts) \<and> \<not> is_expired_at_time s ts t)"
  proof (cases "map_of dd k = Some (0, t)")
    case True
    then show ?thesis by simp
  next
    case False
    then have nm: "\<not> is_absent s k" and e: "map_of dd k = map_of ?d2 k"
      using cases present k by auto
    have ne: "\<not> is_stale s t k"
      using False e k by (auto simp: map_of_fold_renew)
    then have e2: "map_of dd k = map_of (cache s) k"
      using e by (simp add: map_of_fold_renew map_of_fold_touch)
    have "is_fresh s t k" using classes_exhaustive[of s k t] nm ne by blast
    then show ?thesis using e2 by (auto simp: is_fresh_def split: option.splits)
  qed
  moreover have cs: "cache s' = dd" by (simp add: s')
  ultimately show ?thesis
  proof (elim disjE exE conjE)
    assume "map_of dd k = Some (0, t)"
    then show ?thesis using now cs by (simp add: is_fresh_def)
  next
    fix v ts
    assume "map_of dd k = Some (v, ts)" and "\<not> is_expired_at_time s ts t"
    then show ?thesis using same[of ts] cs by (simp add: is_fresh_def)
  qed
qed

subsection \<open>The batch layer\<close>

lemma refresh_keys_eq: "refresh_keys ks t d = Inr (fold (refresh_one t) ks d)"
  by (induction ks arbitrary: d) (simp_all add: refresh_one_def move_to_end_setitem renew_def)

lemma keys_refresh_one: "fst ` set (refresh_one t k d) = fst ` set d"
  by (auto simp: refresh_one_def keys_renew contains_iff)

lemma distinct_refresh_one:
  "distinct (map fst d) \<Longrightarrow> distinct (map fst (refresh_one t k d))"
  by (simp add: refresh_one_def distinct_renew)

lemma length_refresh_one: "length (refresh_one t k d) \<le> length d"
  by (simp add: refresh_one_def length_renew contains_iff)

lemma distinct_fold_refresh_one:
  "distinct (map fst d) \<Longrightarrow> distinct (map fst (fold (refresh_one t) ks d))"
  by (induction ks arbitrary: d) (simp_all add: distinct_refresh_one)

lemma length_fold_refresh_one: "length (fold (refresh_one t) ks d) \<le> length d"
proof (induction ks arbitrary: d)
  case Nil
  show ?case by simp
next
  case (Cons k ks)
  have "length (fold (refresh_one t) ks (refresh_one t k d)) \<le> length (refresh_one t k d)"
    by (rule Cons.IH)
  also have "\<dots> \<le> length d" by (rule length_refresh_one)
  finally show ?case by simp
qed

lemma fold_refresh_one_eq:
  "fold (refresh_one t) ks d =
     filter (\<lambda>e. fst e \<notin> set ks) d @
     map (\<lambda>k. (k, (0, t))) (remdups (filter (contains d) ks))"
proof (induction ks arbitrary: d)
  case Nil
  show ?case by simp
next
  case (Cons k ks)
  show ?case
  proof (cases "contains d k")
    case False
    then have "k \<notin> fst ` set d" by (simp add: contains_iff)
    then have "filter (\<lambda>e. fst e \<notin> set (k # ks)) d = filter (\<lambda>e. fst e \<notin> set ks) d"
      by (intro filter_cong) auto
    then show ?thesis using False Cons.IH[of d] by (simp add: refresh_one_def)
  next
    case True
    let ?d = "renew t k d"
    have c: "contains ?d = contains d"
      using True by (auto simp: fun_eq_iff contains_iff keys_renew)
    have f: "filter (\<lambda>e. fst e \<notin> set ks) ?d =
        filter (\<lambda>e. fst e \<notin> set (k # ks)) d @ (if k \<in> set ks then [] else [(k, (0, t))])"
      by (auto simp: renew_def remove_key_filter intro: filter_cong)
    have "fold (refresh_one t) (k # ks) d = fold (refresh_one t) ks ?d"
      using True by (simp add: refresh_one_def)
    also have "\<dots> = filter (\<lambda>e. fst e \<notin> set ks) ?d @
        map (\<lambda>k. (k, (0, t))) (remdups (filter (contains d) ks))"
      using Cons.IH[of ?d] by (simp add: c)
    also have "\<dots> = filter (\<lambda>e. fst e \<notin> set (k # ks)) d @
        map (\<lambda>k. (k, (0, t))) (remdups (filter (contains d) (k # ks)))"
      using True by (simp add: f)
    finally show ?thesis .
  qed
qed

lemma process_refresh_batch_eq:
  "process_refresh_batch t s =
     Inr (if max_request_size s \<le> int (length (refresh_batch s))
          then s\<lparr>cache := fold (refresh_one t) (refresh_batch s) (cache s),
                 batch_updates := batch_updates s + 1, refresh_batch := []\<rparr>
          else s)"
  by (simp add: process_refresh_batch_def refresh_keys_eq)

lemma batch_get_unfold:
  "batch_get keys t s =
     (if keys = [] then Inr ([], s)
      else case get keys t (s\<lparr>refresh_batch := refresh_batch s @ collect_near_expired keys t s []\<rparr>) of
             Inl e \<Rightarrow> Inl e
           | Inr (res, s2) \<Rightarrow>
               Inr (res,
                    if max_request_size s2 \<le> int (length (refresh_batch s2))
                    then s2\<lparr>cache := fold (refresh_one t) (refresh_batch s2) (cache s2),
                            batch_updates := batch_updates s2 + 1, refresh_batch := []\<rparr>
                    else s2))"
  by (simp add: batch_get_def process_refresh_batch_eq Let_def split: sum.splits)

lemma get_keeps_batch_fields:
  assumes "get keys t s = Inr (res, s')"
  shows "refresh_batch s' = refresh_batch s \<and> max_request_size s' = max_request_size s \<and>
         batch_updates s' = batch_updates s"
  using get_result[OF assms] by auto

lemma batch_get_bounded:
  assumes "1 \<le> max_size s" and "bounded s"
  shows "\<exists>s'. batch_get keys t s = Inr (replicate (length keys) 0, s') \<and> bounded s' \<and>
           max_size s' = max_size s"
proof (cases "keys = []")
  case True
  then show ?thesis using assms(2) by (simp add: batch_get_unfold)
next
  case False
  let ?s1 = "s\<lparr>refresh_batch := refresh_batch s @ collect_near_expired keys t s []\<rparr>"
  have "1 \<le> max_size ?s1" "bounded ?s1" using assms by (simp_all add: bounded_def)
  from get_bounded[OF this, of keys t] obtain s2 where
    g: "get keys t ?s1 = Inr (replicate (length keys) 0, s2)" and b: "bounded s2"
    and m: "max_size s2 = max_size s" by auto
  let ?s3 = "s2\<lparr>cache := fold (refresh_one t) (refresh_batch s2) (cache s2),
                 batch_updates := batch_updates s2 + 1, refresh_batch := []\<rparr>"
  have "length (fold (refresh_one t) (refresh_batch s2) (cache s2)) \<le> length (cache s2)"
    by (rule length_fold_refresh_one)
  then have "bounded ?s3"
    using b by (simp add: bounded_def distinct_fold_refresh_one)
  then show ?thesis using False g b m by (simp add: batch_get_unfold)
qed

lemma batch_run_bounded:
  assumes "1 \<le> max_size s" and "bounded s"
  shows "\<exists>s'. batch_run calls s = Inr s' \<and> bounded s' \<and> max_size s' = max_size s"
  using assms
proof (induction calls arbitrary: s)
  case Nil
  then show ?case by simp
next
  case (Cons c calls)
  obtain keys t where c: "c = (keys, t)" by (cases c)
  from batch_get_bounded[OF Cons.prems, of keys t] obtain s1 where
    g: "batch_get keys t s = Inr (replicate (length keys) 0, s1)" and b: "bounded s1"
    and m: "max_size s1 = max_size s" by blast
  have "1 \<le> max_size s1" using m Cons.prems(1) by simp
  from Cons.IH[OF this b] obtain s' where
    "batch_run calls s1 = Inr s'" "bounded s'" "max_size s' = max_size s1" by blast
  then show ?case using c g m by simp
qed

subsection \<open>The cache after a lookup\<close>

lemma fold_touch_eq:
  "set ks \<subseteq> fst ` set d \<Longrightarrow>
   fold touch ks d =
     filter (\<lambda>e. fst e \<notin> set ks) d @ map (\<lambda>k. (k, the (map_of d k))) (remdups ks)"
proof (induction ks arbitrary: d)
  case Nil
  show ?case by simp
next
  case (Cons k ks)
  then have "k \<in> fst ` set d" by simp
  then obtain v where v: "map_of d k = Some v"
    by (cases "map_of d k") (simp_all add: map_of_eq_None_iff)
  let ?d = "touch k d"
  have td: "?d = remove_key k d @ [(k, v)]" using v by (simp add: touch_def)
  have "set ks \<subseteq> fst ` set ?d" using Cons.prems by (simp add: keys_touch)
  from Cons.IH[OF this] have ih: "fold touch ks ?d =
      filter (\<lambda>e. fst e \<notin> set ks) ?d @ map (\<lambda>k. (k, the (map_of d k))) (remdups ks)"
    by (simp only: map_of_touch)
  have f: "filter (\<lambda>e. fst e \<notin> set ks) ?d =
      filter (\<lambda>e. fst e \<notin> set (k # ks)) d @ (if k \<in> set ks then [] else [(k, v)])"
    by (auto simp: td remove_key_filter intro: filter_cong)
  have "fold touch (k # ks) d = fold touch ks ?d" by simp
  also have "\<dots> = filter (\<lambda>e. fst e \<notin> set (k # ks)) d @
      (if k \<in> set ks then [] else [(k, v)]) @ map (\<lambda>k. (k, the (map_of d k))) (remdups ks)"
    by (simp only: ih f append_assoc)
  also have "\<dots> = filter (\<lambda>e. fst e \<notin> set (k # ks)) d @
      map (\<lambda>k. (k, the (map_of d k))) (remdups (k # ks))"
    using v by simp
  finally show ?case .
qed

lemma fold_renew_eq:
  "fold (renew t) ks d =
     filter (\<lambda>e. fst e \<notin> set ks) d @ map (\<lambda>k. (k, (0, t))) (remdups ks)"
proof (induction ks arbitrary: d)
  case Nil
  show ?case by simp
next
  case (Cons k ks)
  let ?d = "renew t k d"
  have f: "filter (\<lambda>e. fst e \<notin> set ks) ?d =
      filter (\<lambda>e. fst e \<notin> set (k # ks)) d @ (if k \<in> set ks then [] else [(k, (0, t))])"
    by (auto simp: renew_def remove_key_filter intro: filter_cong)
  have "fold (renew t) (k # ks) d = fold (renew t) ks ?d" by simp
  also have "\<dots> = filter (\<lambda>e. fst e \<notin> set (k # ks)) d @
      (if k \<in> set ks then [] else [(k, (0, t))]) @ map (\<lambda>k. (k, (0, t))) (remdups ks)"
    by (simp only: Cons.IH[of ?d] f append_assoc)
  also have "\<dots> = filter (\<lambda>e. fst e \<notin> set (k # ks)) d @
      map (\<lambda>k. (k, (0, t))) (remdups (k # ks))"
    by simp
  finally show ?case .
qed

lemma setitem_append_absent:
  "k \<notin> fst ` set xs \<Longrightarrow> setitem k v (xs @ ys) = xs @ setitem k v ys"
  by (induction xs) auto

lemma set_setitem_subset: "set (setitem k v d) \<subseteq> insert (k, v) (set d)"
  by (induction d) auto

lemma add_keys_to_cache_structure:
  assumes "add_keys_to_cache K t s = Inr s'"
    and "cache s = drop j d0 @ ns"
    and "set K \<inter> fst ` set d0 = {}"
    and "set ns \<subseteq> A \<times> {(0, t)}"
  shows "\<exists>j' ns'. cache s' = drop j' d0 @ ns' \<and> set ns' \<subseteq> (A \<union> set K) \<times> {(0, t)} \<and>
           int j' \<le> int j + (evictions s' - evictions s)"
  using assms
proof (induction K arbitrary: s j ns A)
  case Nil
  then show ?case by auto
next
  case (Cons k K)
  have kd: "k \<notin> fst ` set (drop i d0)" for i
    using Cons.prems(3) by (auto dest: in_set_dropD)
  have disj: "set K \<inter> fst ` set d0 = {}" using Cons.prems(3) by auto
  show ?case
  proof (cases "max_size s \<le> int (length (cache s))")
    case True
    then obtain e rest where c: "cache s = e # rest"
      using Cons.prems(1) by (cases "cache s") (auto simp: popitem_first_def)
    let ?s1 = "s\<lparr>cache := setitem k (0, t) rest, evictions := evictions s + 1\<rparr>"
    have r: "add_keys_to_cache K t ?s1 = Inr s'"
      using Cons.prems(1) True c by (simp add: popitem_first_def)
    obtain j1 ns1 where rest: "rest = drop j1 d0 @ ns1" and j1: "j1 \<le> Suc j"
      and n1: "set ns1 \<subseteq> set ns"
    proof (cases "drop j d0")
      case Nil
      then have "rest = drop j d0 @ tl ns" "set (tl ns) \<subseteq> set ns"
        using c Cons.prems(2) by (auto simp: list.set_sel(2))
      then show ?thesis using that[of j "tl ns"] by simp
    next
      case (Cons a as)
      then have "as = drop (Suc j) d0" by (metis drop_Suc list.sel(3) tl_drop)
      then have "rest = drop (Suc j) d0 @ ns" using c Cons Cons.prems(2) by simp
      then show ?thesis using that[of "Suc j" ns] by simp
    qed
    have c1: "cache ?s1 = drop j1 d0 @ setitem k (0, t) ns1"
      using kd[of j1] by (simp add: rest setitem_append_absent)
    have n2: "set (setitem k (0, t) ns1) \<subseteq> (insert k A) \<times> {(0, t)}"
      using set_setitem_subset[of k "(0, t)" ns1] n1 Cons.prems(4) by auto
    from Cons.IH[OF r c1 disj n2] obtain j' ns' where
      "cache s' = drop j' d0 @ ns'" "set ns' \<subseteq> (insert k A \<union> set K) \<times> {(0, t)}"
      "int j' \<le> int j1 + (evictions s' - evictions ?s1)" by blast
    then show ?thesis using j1 by (intro exI[of _ j'] exI[of _ ns']) auto
  next
    case False
    let ?s1 = "s\<lparr>cache := setitem k (0, t) (cache s)\<rparr>"
    have r: "add_keys_to_cache K t ?s1 = Inr s'" using Cons.prems(1) False by simp
    have c1: "cache ?s1 = drop j d0 @ setitem k (0, t) ns"
      using kd[of j] by (simp add: Cons.prems(2) setitem_append_absent)
    have n2: "set (setitem k (0, t) ns) \<subseteq> (insert k A) \<times> {(0, t)}"
      using set_setitem_subset[of k "(0, t)" ns] Cons.prems(4) by auto
    from Cons.IH[OF r c1 disj n2] obtain j' ns' where
      "cache s' = drop j' d0 @ ns'" "set ns' \<subseteq> (insert k A \<union> set K) \<times> {(0, t)}"
      "int j' \<le> int j + (evictions s' - evictions ?s1)" by blast
    then show ?thesis by (intro exI[of _ j'] exI[of _ ns']) auto
  qed
qed

lemma is_fresh_present: "is_fresh s t k \<Longrightarrow> k \<in> fst ` set (cache s)"
  by (auto simp: is_fresh_def split: option.splits dest: map_of_SomeD intro: rev_image_eqI)

lemma is_absent_iff: "is_absent s k \<longleftrightarrow> k \<notin> fst ` set (cache s)"
  by (simp add: is_absent_def map_of_eq_None_iff)

lemma get_structure:
  assumes "get keys t s = Inr (res, s')"
  shows "\<exists>j ns. cache s' =
            drop j (filter (\<lambda>e. fst e \<notin> set keys) (cache s) @
                    map (\<lambda>k. (k, the (map_of (cache s) k)))
                      (remdups (filter (is_fresh s t) keys)) @
                    map (\<lambda>k. (k, (0, t))) (remdups (filter (is_stale s t) keys))) @ ns \<and>
          set ns \<subseteq> set (filter (is_absent s) keys) \<times> {(0, t)} \<and>
          int j \<le> evictions s' - evictions s"
proof -
  let ?F = "filter (is_fresh s t) keys" and ?E = "filter (is_stale s t) keys"
    and ?M = "filter (is_absent s) keys"
  let ?d0 = "filter (\<lambda>e. fst e \<notin> set keys) (cache s) @
      map (\<lambda>k. (k, the (map_of (cache s) k))) (remdups ?F) @
      map (\<lambda>k. (k, (0, t))) (remdups ?E)"
  let ?s2 = "s\<lparr>hits := hits s + int (length ?F),
                cache := fold (renew t) ?E (fold touch ?F (cache s)),
                expirations := expirations s + int (length ?E)\<rparr>"
  obtain s3 where s3: "add_keys_to_cache ?M t ?s2 = Inr s3"
    using assms by (auto simp: get_unfold split: sum.splits)
  have s': "cache s' = cache s3" "evictions s' = evictions s3"
    using assms s3 by (auto simp: get_unfold)
  have F: "set ?F \<subseteq> fst ` set (cache s)" by (auto dest: is_fresh_present)
  have keep: "fst e \<notin> set ?F \<and> fst e \<notin> set ?E \<longleftrightarrow> fst e \<notin> set keys"
    if "e \<in> set (cache s)" for e
  proof -
    have "\<not> is_absent s (fst e)" using that by (auto simp: is_absent_iff)
    then show ?thesis using classes_exhaustive[of s "fst e" t] by auto
  qed
  have "filter (\<lambda>e. fst e \<notin> set ?E) (filter (\<lambda>e. fst e \<notin> set ?F) (cache s)) =
      filter (\<lambda>e. fst e \<notin> set keys) (cache s)"
    using keep by (simp only: filter_filter) (rule filter_cong, auto)
  moreover have "filter (\<lambda>e. fst e \<notin> set ?E)
      (map (\<lambda>k. (k, the (map_of (cache s) k))) (remdups ?F)) =
      map (\<lambda>k. (k, the (map_of (cache s) k))) (remdups ?F)"
    by (rule filter_True) (auto dest: is_stale_not_others)
  ultimately have c2: "cache ?s2 = drop 0 ?d0 @ []"
    by (simp add: fold_renew_eq fold_touch_eq[OF F])
  have "set ?M \<inter> fst ` set ?d0 = {}"
  proof -
    have "fst ` set ?d0 \<subseteq> fst ` set (cache s)"
      by (auto simp: image_Un image_image dest: is_fresh_present is_stale_present)
    moreover have "k \<notin> fst ` set (cache s)" if "k \<in> set ?M" for k
      using that by (simp add: is_absent_iff)
    ultimately show ?thesis by blast
  qed
  from add_keys_to_cache_structure[OF s3 c2 this, of "{}"] obtain j ns where
    "cache s3 = drop j ?d0 @ ns" "set ns \<subseteq> set ?M \<times> {(0, t)}"
    "int j \<le> evictions s3 - evictions ?s2" by auto
  then show ?thesis using s' by (intro exI[of _ j] exI[of _ ns]) simp
qed

subsection \<open>The hit rate in doubles\<close>

lemma hit_rate_error:
  assumes "0 \<le> h" and "0 \<le> m" and "h + m \<noteq> 0"
  shows "\<bar>float_mul (true_div h (h + m)) 100 - 100 * (real_of_int h / real_of_int (h + m))\<bar>
           \<le> 1 / 2 ^ 45"
proof -
  define q where "q = real_of_int h / real_of_int (h + m)"
  define r where "r = round_double q"
  have t: "0 < real_of_int (h + m)" using assms by simp
  have q: "0 \<le> q" "q \<le> 1" using assms t by (simp_all add: q_def)
  have "\<bar>q\<bar> < 2 powi 1" using q by simp
  from round_double_error[OF this] have er: "\<bar>r - q\<bar> \<le> 1 / 2 ^ 53"
    by (simp add: r_def power_int_minus_divide)
  then have "\<bar>r\<bar> \<le> 1 + 1 / 2 ^ 53" using q by linarith
  then have "\<bar>r\<bar> * 100 < 128" by simp
  then have "\<bar>r * 100\<bar> < 2 powi 7" by (simp add: abs_mult)
  from round_double_error[OF this] have ep: "\<bar>round_double (r * 100) - r * 100\<bar> \<le> 1 / 2 ^ 47"
    by (simp add: power_int_minus_divide)
  have "\<bar>round_double (r * 100) - 100 * q\<bar> \<le> 1 / 2 ^ 47 + 100 * (1 / 2 ^ 53)"
    using er ep by linarith
  also have "\<dots> \<le> 1 / 2 ^ 45" by simp
  finally show ?thesis by (simp add: float_mul_def true_div_def r_def q_def)
qed

text \<open>The equations that evaluate the float operations on numerals.\<close>

lemmas round_double_eval =
  total_seconds_def true_div_def float_mul_def round_double_def floor_log2_def
  round_half_even_def bit_length.simps Let_def

section \<open>The claims\<close>

subsection \<open>Evictions on a full cache\<close>

text \<open>
  Claim C1, at a failing input. A cache of capacity 3 that holds the keys 1, 2, 3 is
  asked for \<^verbatim>\<open>[4, 4]\<close>: the one absent key 4 costs two evictions, the keys 1 and 2 are
  both removed, and the cache is left with two entries.
\<close>

theorem duplicate_absent_key_evicts_twice:
  "LRUCache_replay 3 10000000 [([1::nat, 2, 3], 0)] =
     Inr \<lparr>max_size = 3, ttl = 10000000, ttl_seconds = 10,
          cache = [(1, (0, 0)), (2, (0, 0)), (3, (0, 0))],
          hits = 0, misses = 3, bulk_misses = 1, evictions = 0, expirations = 0\<rparr> \<and>
   LRUCache_replay 3 10000000 [([1::nat, 2, 3], 0), ([4, 4], 1000000)] =
     Inr \<lparr>max_size = 3, ttl = 10000000, ttl_seconds = 10,
          cache = [(3, (0, 0)), (4, (0, 1000000))],
          hits = 0, misses = 5, bulk_misses = 2, evictions = 2, expirations = 0\<rparr>"
  by (simp add: LRUCache_replay_def LRUCache_init_def get_def move_to_end_def
      popitem_first_def is_expired_at_time_def round_double_eval)

subsection \<open>The capacity bound\<close>

text \<open>
  Claim C2. A cache constructed with \<open>max_size \<ge> 1\<close>, with or without the batch
  layer, answers every trace of bulk lookups without raising, and after the last call of
  the trace (hence after every call, the trace being arbitrary) \<^verbatim>\<open>size()\<close> is at most
  \<open>max_size\<close>, the keys of the entries being pairwise distinct.
\<close>

theorem size_bounded_after_every_call:
  assumes "1 \<le> max_size0"
  shows "(\<exists>s'. LRUCache_replay max_size0 ttl0 calls = Inr s' \<and>
            cache_size s' \<le> max_size0 \<and> distinct (map fst (cache s'))) \<and>
         (\<exists>b'. BatchRefreshCache_replay max_size0 ttl0 half_ttl0 max_request_size0 calls = Inr b' \<and>
            cache_size b' \<le> max_size0 \<and> distinct (map fst (cache b')))"
proof
  let ?s0 = "\<lparr>max_size = max_size0, ttl = ttl0, ttl_seconds = total_seconds ttl0,
           cache = [], hits = 0, misses = 0, bulk_misses = 0, evictions = 0,
           expirations = 0\<rparr> :: 'a LRUCache"
  have "1 \<le> max_size ?s0" "bounded ?s0" using assms by (simp_all add: bounded_def)
  from run_bounded[OF this, of calls] obtain s' where
    "run calls ?s0 = Inr s'" "bounded s'" "max_size s' = max_size0" by auto
  then show "\<exists>s'. LRUCache_replay max_size0 ttl0 calls = Inr s' \<and>
            cache_size s' \<le> max_size0 \<and> distinct (map fst (cache s'))"
    by (auto simp: LRUCache_replay_def LRUCache_init_def bounded_def cache_size_def)
next
  let ?b0 = "\<lparr>max_size = max_size0, ttl = ttl0, ttl_seconds = total_seconds ttl0,
           cache = [], hits = 0, misses = 0, bulk_misses = 0, evictions = 0,
           expirations = 0, half_ttl = half_ttl0, max_request_size = max_request_size0,
           half_ttl_seconds = float_mul (total_seconds ttl0) half_ttl0,
           refresh_batch = [], batch_updates = 0\<rparr> :: 'a BatchRefreshCache"
  have i: "(BatchRefreshCache_init max_size0 ttl0 half_ttl0 max_request_size0
            :: error + 'a BatchRefreshCache) = Inr ?b0"
    by (simp add: BatchRefreshCache_init_def LRUCache_init_def LRUCache.defs)
  have "1 \<le> max_size ?b0" "bounded ?b0" using assms by (simp_all add: bounded_def)
  from batch_run_bounded[OF this, of calls] obtain b' where
    "batch_run calls ?b0 = Inr b'" "bounded b'" "max_size b' = max_size0" by auto
  then show "\<exists>b'. BatchRefreshCache_replay max_size0 ttl0 half_ttl0 max_request_size0 calls =
            Inr b' \<and> cache_size b' \<le> max_size0 \<and> distinct (map fst (cache b'))"
    by (auto simp: BatchRefreshCache_replay_def i bounded_def cache_size_def)
qed

theorem size_bounded_after_every_call_witness:
  "(1::int) \<le> 2 \<and>
   (\<exists>s'. LRUCache_replay 2 10000000 [([1::nat, 2, 3], 0), ([4, 4], 1000000)] = Inr s' \<and>
         cache_size s' \<le> 2 \<and> distinct (map fst (cache s'))) \<and>
   (\<exists>b'. BatchRefreshCache_replay 2 10000000 (1 / 2) 3
            [([1::nat, 2, 3], 0), ([4, 4], 1000000)] = Inr b' \<and>
         cache_size b' \<le> 2 \<and> distinct (map fst (cache b')))"
  using size_bounded_after_every_call[of 2 10000000
      "[([1::nat, 2, 3], 0), ([4, 4], 1000000)]" "1 / 2" 3]
  by simp

subsection \<open>The TTL boundary\<close>




subsection \<open>Construction\<close>

text \<open>
  Claim C4, as amended. Construction validates nothing: for every \<^verbatim>\<open>max_size\<close>,
  \<^verbatim>\<open>ttl\<close>, \<^verbatim>\<open>half_ttl\<close> and \<^verbatim>\<open>max_request_size\<close> both constructors return a cache
  object, empty and with zero counters, that stores the parameters as given, with
  \<^verbatim>\<open>ttl_seconds\<close> and \<^verbatim>\<open>half_ttl_seconds\<close> computed from them.
\<close>

theorem construction_never_fails:
  "(LRUCache_init max_size0 ttl0 :: error + 'k LRUCache) =
     Inr \<lparr>max_size = max_size0, ttl = ttl0, ttl_seconds = total_seconds ttl0,
          cache = [], hits = 0, misses = 0, bulk_misses = 0, evictions = 0,
          expirations = 0\<rparr> \<and>
   (BatchRefreshCache_init max_size0 ttl0 half_ttl0 max_request_size0
      :: error + 'k BatchRefreshCache) =
     Inr \<lparr>max_size = max_size0, ttl = ttl0, ttl_seconds = total_seconds ttl0,
          cache = [], hits = 0, misses = 0, bulk_misses = 0, evictions = 0,
          expirations = 0, half_ttl = half_ttl0, max_request_size = max_request_size0,
          half_ttl_seconds = float_mul (total_seconds ttl0) half_ttl0,
          refresh_batch = [], batch_updates = 0\<rparr>"
  by (simp add: LRUCache_init_def BatchRefreshCache_init_def LRUCache.defs)

text \<open>
  A capacity of 0 with a negative TTL, and a negative capacity with a zero TTL, a
  \<^verbatim>\<open>half_ttl\<close> of 2 and a batch size of 0, are both accepted.
\<close>

theorem invalid_configuration_accepted_counterexample:
  "(LRUCache_init 0 (- 1000000) :: error + nat LRUCache) =
     Inr \<lparr>max_size = 0, ttl = - 1000000, ttl_seconds = - 1,
          cache = [], hits = 0, misses = 0, bulk_misses = 0, evictions = 0,
          expirations = 0\<rparr> \<and>
   (BatchRefreshCache_init (- 5) 0 2 0 :: error + nat BatchRefreshCache) =
     Inr \<lparr>max_size = - 5, ttl = 0, ttl_seconds = 0,
          cache = [], hits = 0, misses = 0, bulk_misses = 0, evictions = 0,
          expirations = 0, half_ttl = 2, max_request_size = 0,
          half_ttl_seconds = 0, refresh_batch = [], batch_updates = 0\<rparr>"
  by (simp add: LRUCache_init_def BatchRefreshCache_init_def round_double_eval
      LRUCache.defs)

subsection \<open>The batch flush\<close>

text \<open>
  Claim C5. A bulk lookup on the batch layer with a non-empty key list, on a cache with
  capacity at least one, enqueues the near-expiry keys, delegates to the base lookup
  (which returns a state \<open>s2\<close> with that queue) and then compares the queue length
  with \<^verbatim>\<open>max_request_size\<close>. At or above the threshold the result is \<open>s2\<close> where every
  entry whose key is not queued keeps its place and value, every queued key that is
  present is stored with the request time behind all of them (in the order of the last
  occurrences in the queue), absent queued keys are skipped, \<^verbatim>\<open>batch_updates\<close> grows by
  one and the queue is empty. Below the threshold the result is \<open>s2\<close> unchanged. A call
  with an empty key list returns at once and changes nothing.
\<close>

theorem batch_flush:
  assumes "1 \<le> max_size s" and "keys \<noteq> []"
  shows "\<exists>s2. get keys t (s\<lparr>refresh_batch := refresh_batch s @ collect_near_expired keys t s []\<rparr>) =
                 Inr (replicate (length keys) 0, s2) \<and>
              refresh_batch s2 = refresh_batch s @ collect_near_expired keys t s [] \<and>
              max_request_size s2 = max_request_size s \<and>
              batch_updates s2 = batch_updates s \<and>
              batch_get keys t s =
                Inr (replicate (length keys) 0,
                     if max_request_size s2 \<le> int (length (refresh_batch s2))
                     then s2\<lparr>cache :=
                               filter (\<lambda>e. fst e \<notin> set (refresh_batch s2)) (cache s2) @
                               map (\<lambda>k. (k, (0, t)))
                                 (remdups (filter (contains (cache s2)) (refresh_batch s2))),
                             batch_updates := batch_updates s2 + 1,
                             refresh_batch := []\<rparr>
                     else s2) \<and>
              batch_get [] t s = Inr ([], s)"
proof -
  let ?s1 = "s\<lparr>refresh_batch := refresh_batch s @ collect_near_expired keys t s []\<rparr>"
  have "1 \<le> max_size ?s1" using assms(1) by simp
  from get_returns[OF this, of keys t] obtain s2 where
    g: "get keys t ?s1 = Inr (replicate (length keys) 0, s2)" by blast
  from get_keeps_batch_fields[OF g] have
    k: "refresh_batch s2 = refresh_batch s @ collect_near_expired keys t s []"
      "max_request_size s2 = max_request_size s" "batch_updates s2 = batch_updates s"
    by simp_all
  have b: "batch_get keys t s =
      Inr (replicate (length keys) 0,
           if max_request_size s2 \<le> int (length (refresh_batch s2))
           then s2\<lparr>cache := fold (refresh_one t) (refresh_batch s2) (cache s2),
                   batch_updates := batch_updates s2 + 1, refresh_batch := []\<rparr>
           else s2)"
    using assms(2) g by (simp add: batch_get_unfold)
  have e: "batch_get [] t s = Inr ([], s)" by (simp add: batch_get_unfold)
  show ?thesis
    using g k b e by (intro exI[of _ s2]) (simp only: fold_refresh_one_eq simp_thms)
qed

theorem batch_flush_witness:
  "(1::int) \<le> 3 \<and> [3::nat] \<noteq> [] \<and>
   batch_get [3::nat] 7000000
     \<lparr>max_size = 3, ttl = 10000000, ttl_seconds = 10,
      cache = [(3, (0, 0)), (4, (0, 1000000)), (2, (0, 0))],
      hits = 2, misses = 4, bulk_misses = 2, evictions = 1, expirations = 0,
      half_ttl = 1 / 2, max_request_size = 3, half_ttl_seconds = 5,
      refresh_batch = [2, 9], batch_updates = 0\<rparr> =
   Inr ([0],
     \<lparr>max_size = 3, ttl = 10000000, ttl_seconds = 10,
      cache = [(4, (0, 1000000)), (2, (0, 7000000)), (3, (0, 7000000))],
      hits = 3, misses = 4, bulk_misses = 2, evictions = 1, expirations = 0,
      half_ttl = 1 / 2, max_request_size = 3, half_ttl_seconds = 5,
      refresh_batch = [], batch_updates = 1\<rparr>)"
  using batch_flush[of
     "\<lparr>max_size = 3, ttl = 10000000, ttl_seconds = 10,
      cache = [(3::nat, (0, 0)), (4, (0, 1000000)), (2, (0, 0))],
      hits = 2, misses = 4, bulk_misses = 2, evictions = 1, expirations = 0,
      half_ttl = 1 / 2, max_request_size = 3, half_ttl_seconds = 5,
      refresh_batch = [2, 9], batch_updates = 0\<rparr>" "[3]" 7000000]
  by (simp add: get_def move_to_end_def is_expired_at_time_def is_near_expiration_def
      round_double_eval contains_def)

subsection \<open>Uniqueness in the refresh queue\<close>

text \<open>
  Claim C6, at a failing input. The cache of \<^verbatim>\<open>test_batch_refresh_cache\<close> (capacity 10,
  TTL 10 s, \<^verbatim>\<open>half_ttl\<close> 0.5, batch size 3) stores key 1 at time 0 and is asked for
  \<^verbatim>\<open>[1, 1]\<close> six seconds later: key 1 is near expiry at both occurrences and is queued
  twice.
\<close>

theorem duplicate_key_enqueued_twice:
  "BatchRefreshCache_replay 10 10000000 (1 / 2) 3 [([1::nat], 0), ([1, 1], 6000000)] =
     Inr \<lparr>max_size = 10, ttl = 10000000, ttl_seconds = 10, cache = [(1, (0, 0))],
          hits = 2, misses = 1, bulk_misses = 1, evictions = 0, expirations = 0,
          half_ttl = 1 / 2, max_request_size = 3, half_ttl_seconds = 5,
          refresh_batch = [1, 1], batch_updates = 0\<rparr>"
  by (simp add: BatchRefreshCache_replay_def BatchRefreshCache_init_def LRUCache_init_def
      LRUCache.defs batch_get_def get_def move_to_end_def popitem_first_def
      is_expired_at_time_def is_near_expiration_def round_double_eval
      process_refresh_batch_def)

subsection \<open>What a hit changes\<close>

text \<open>
  Claim C7, as amended. In every bulk lookup that returns, each occurrence of a present,
  unexpired key counts one hit, and the cache afterwards is made of four runs: the
  entries of the keys that were not requested, in their old order; the entries of the
  keys that were hit, each with the value and timestamp it had, in the order of their
  last occurrences in the request; the entries of the expired keys, stamped with the
  request time; and behind them entries of the absent keys, stamped with the request
  time. Only evictions shorten this list, from its front. The lookup returns on every
  cache with capacity at least one. A batch refresh, like an expiration, stores the
  request time: it leaves the entries of the keys outside the queue in their order and
  puts behind them the queued keys that are present, stamped with the request time.
\<close>

theorem hit_promotes_keeps_timestamp:
  "(\<forall>res s'. get keys t s = Inr (res, s') \<longrightarrow>
      hits s' = hits s + int (length (filter (is_fresh s t) keys)) \<and>
      (\<exists>j ns. cache s' =
          drop j (filter (\<lambda>e. fst e \<notin> set keys) (cache s) @
                  map (\<lambda>k. (k, the (map_of (cache s) k)))
                    (remdups (filter (is_fresh s t) keys)) @
                  map (\<lambda>k. (k, (0, t))) (remdups (filter (is_stale s t) keys))) @ ns \<and>
          set ns \<subseteq> set (filter (is_absent s) keys) \<times> {(0, t)} \<and>
          int j \<le> evictions s' - evictions s)) \<and>
   (1 \<le> max_size s \<longrightarrow> (\<exists>s'. get keys t s = Inr (replicate (length keys) 0, s'))) \<and>
   refresh_keys q t d =
     Inr (filter (\<lambda>e. fst e \<notin> set q) d @
          map (\<lambda>k. (k, (0, t))) (remdups (filter (contains d) q)))"
proof (intro conjI allI impI)
  fix res s'
  assume g: "get keys t s = Inr (res, s')"
  from get_result[OF g] show "hits s' = hits s + int (length (filter (is_fresh s t) keys))"
    by auto
  from get_structure[OF g] show "\<exists>j ns. cache s' =
          drop j (filter (\<lambda>e. fst e \<notin> set keys) (cache s) @
                  map (\<lambda>k. (k, the (map_of (cache s) k)))
                    (remdups (filter (is_fresh s t) keys)) @
                  map (\<lambda>k. (k, (0, t))) (remdups (filter (is_stale s t) keys))) @ ns \<and>
          set ns \<subseteq> set (filter (is_absent s) keys) \<times> {(0, t)} \<and>
          int j \<le> evictions s' - evictions s" .
next
  assume "1 \<le> max_size s"
  then show "\<exists>s'. get keys t s = Inr (replicate (length keys) 0, s')" by (rule get_returns)
next
  show "refresh_keys q t d =
     Inr (filter (\<lambda>e. fst e \<notin> set q) d @
          map (\<lambda>k. (k, (0, t))) (remdups (filter (contains d) q)))"
    by (simp only: refresh_keys_eq fold_refresh_one_eq)
qed

theorem hit_promotes_keeps_timestamp_witness:
  "(1::int) \<le> 3 \<and>
   get [1::nat, 4, 1, 2] 5000000
     \<lparr>max_size = 3, ttl = 10000000, ttl_seconds = 10,
      cache = [(1, (0, 0)), (2, (0, 1000000)), (3, (0, 2000000))],
      hits = 0, misses = 3, bulk_misses = 1, evictions = 0, expirations = 0\<rparr> =
   Inr ([0, 0, 0, 0],
     \<lparr>max_size = 3, ttl = 10000000, ttl_seconds = 10,
      cache = [(1, (0, 0)), (2, (0, 1000000)), (4, (0, 5000000))],
      hits = 3, misses = 4, bulk_misses = 2, evictions = 1, expirations = 0\<rparr>)"
  using hit_promotes_keeps_timestamp[of "[1::nat, 4, 1, 2]" 5000000
     "\<lparr>max_size = 3, ttl = 10000000, ttl_seconds = 10,
      cache = [(1, (0, 0)), (2, (0, 1000000)), (3, (0, 2000000))],
      hits = 0, misses = 3, bulk_misses = 1, evictions = 0, expirations = 0\<rparr>" "[]" "[]"]
  by (simp add: get_def move_to_end_def popitem_first_def is_expired_at_time_def
      round_double_eval)

text \<open>
  The entry of key 1 was stored at time 0; after a hit five seconds later it still
  carries the timestamp 0, not the request time.
\<close>

theorem hit_resets_timestamp_counterexample:
  "get [1::nat] 5000000
     \<lparr>max_size = 3, ttl = 10000000, ttl_seconds = 10, cache = [(1, (0, 0))],
      hits = 0, misses = 1, bulk_misses = 1, evictions = 0, expirations = 0\<rparr> =
   Inr ([0],
     \<lparr>max_size = 3, ttl = 10000000, ttl_seconds = 10, cache = [(1, (0, 0))],
      hits = 1, misses = 1, bulk_misses = 1, evictions = 0, expirations = 0\<rparr>) \<and>
   map_of [(1::nat, (0::int, 0::int))] 1 \<noteq> Some (0, 5000000)"
  by (simp add: get_def move_to_end_def is_expired_at_time_def round_double_eval)

subsection \<open>The hit rate\<close>

text \<open>
  Claim C8, as amended. With non-negative counters the field \<^verbatim>\<open>hit_rate_percent\<close> of
  the statistics is \<^verbatim>\<open>hits / (hits + misses) * 100\<close> evaluated in double precision when
  \<open>hits + misses\<close> is not zero, which is within \<open>1 / 2 ^ 45\<close> of the percentage
  \<open>100 * hits / (hits + misses)\<close>, and 0 when \<open>hits + misses\<close> is zero.
\<close>

theorem hit_rate_is_percentage:
  assumes "0 \<le> hits s" and "0 \<le> misses s"
  shows "hit_rate_percent (get_stats s) =
           (if hits s + misses s \<noteq> 0
            then float_mul (true_div (hits s) (hits s + misses s)) 100
            else 0) \<and>
         \<bar>hit_rate_percent (get_stats s) -
           (if hits s + misses s \<noteq> 0
            then 100 * (real_of_int (hits s) / real_of_int (hits s + misses s))
            else 0)\<bar> \<le> 1 / 2 ^ 45"
proof (cases "hits s + misses s = 0")
  case True
  then show ?thesis by (simp add: get_stats_def Let_def)
next
  case False
  then have p: "0 < hits s + misses s" using assms by linarith
  have "hit_rate_percent (get_stats s) = float_mul (true_div (hits s) (hits s + misses s)) 100"
    using p by (simp add: get_stats_def Let_def)
  then show ?thesis using hit_rate_error[OF assms False] False by simp
qed

theorem hit_rate_is_percentage_witness:
  "(0::int) \<le> 7 \<and> (0::int) \<le> 93 \<and>
   hit_rate_percent (get_stats
     \<lparr>max_size = 3, ttl = 10000000, ttl_seconds = 10, cache = [(1::nat, (0, 0))],
      hits = 7, misses = 93, bulk_misses = 1, evictions = 0, expirations = 0\<rparr>) =
     7 + 1 / 2 ^ 50 \<and>
   \<bar>(7 + 1 / 2 ^ 50) - 100 * (real_of_int 7 / real_of_int (7 + 93))\<bar> \<le> (1::real) / 2 ^ 45"
  using hit_rate_is_percentage[of
     "\<lparr>max_size = 3, ttl = 10000000, ttl_seconds = 10, cache = [(1::nat, (0, 0))],
      hits = 7, misses = 93, bulk_misses = 1, evictions = 0, expirations = 0\<rparr>"]
  by (simp add: get_stats_def round_double_eval)

text \<open>One hit and one miss give 50, not one half.\<close>

theorem hit_rate_fraction_counterexample:
  "hit_rate_percent (get_stats
     \<lparr>max_size = 3, ttl = 10000000, ttl_seconds = 10, cache = [(1::nat, (0, 0))],
      hits = 1, misses = 1, bulk_misses = 1, evictions = 0, expirations = 0\<rparr>) = 50 \<and>
   (50::real) \<noteq> real_of_int 1 / real_of_int (1 + 1)"
  by (simp add: get_stats_def round_double_eval)

subsection \<open>Looking a key up again at the same time\<close>

text \<open>
  Claim C9, as amended. A key that was requested in a bulk lookup at time \<open>t\<close> and is
  in the cache when that call returns is a hit in a lookup that follows at the same
  time \<open>t\<close>, on a cache with a non-negative TTL.
\<close>

theorem requested_key_hits_again:
  assumes "distinct (map fst (cache s))" and "0 \<le> ttl_seconds s"
    and "get keys t s = Inr (res, s')" and "k \<in> set keys" and "contains (cache s') k"
  shows "\<exists>d. get [k] t s' = Inr ([0], s'\<lparr>hits := hits s' + 1, cache := d\<rparr>)"
proof -
  have "is_fresh s' t k" using assms by (rule requested_key_fresh_after_get)
  from get_hit[OF this] show ?thesis by blast
qed

theorem requested_key_hits_again_witness:
  "distinct (map fst [(1::nat, (0::int, 0::int)), (2, (0, 0))]) \<and>
   (0::real) \<le> 10 \<and>
   get [3, 1] 20000000
     \<lparr>max_size = 2, ttl = 10000000, ttl_seconds = 10, cache = [(1::nat, (0, 0)), (2, (0, 0))],
      hits = 0, misses = 2, bulk_misses = 1, evictions = 0, expirations = 0\<rparr> =
   Inr ([0, 0],
     \<lparr>max_size = 2, ttl = 10000000, ttl_seconds = 10,
      cache = [(1, (0, 20000000)), (3, (0, 20000000))],
      hits = 0, misses = 4, bulk_misses = 2, evictions = 1, expirations = 1\<rparr>) \<and>
   1 \<in> set [3, 1::nat] \<and>
   contains [(1::nat, (0, 20000000)), (3, (0, 20000000))] 1 \<and>
   (\<exists>d. get [1] 20000000
     \<lparr>max_size = 2, ttl = 10000000, ttl_seconds = 10,
      cache = [(1::nat, (0, 20000000)), (3, (0, 20000000))],
      hits = 0, misses = 4, bulk_misses = 2, evictions = 1, expirations = 1\<rparr> =
     Inr ([0],
     \<lparr>max_size = 2, ttl = 10000000, ttl_seconds = 10, cache = d,
      hits = 1, misses = 4, bulk_misses = 2, evictions = 1, expirations = 1\<rparr>))"
proof -
  have g: "get [3, 1] 20000000
     \<lparr>max_size = 2, ttl = 10000000, ttl_seconds = 10, cache = [(1::nat, (0, 0)), (2, (0, 0))],
      hits = 0, misses = 2, bulk_misses = 1, evictions = 0, expirations = 0\<rparr> =
   Inr ([0, 0],
     \<lparr>max_size = 2, ttl = 10000000, ttl_seconds = 10,
      cache = [(1, (0, 20000000)), (3, (0, 20000000))],
      hits = 0, misses = 4, bulk_misses = 2, evictions = 1, expirations = 1\<rparr>)"
    by (simp add: get_def move_to_end_def popitem_first_def is_expired_at_time_def
        round_double_eval)
  show ?thesis
    using requested_key_hits_again[OF _ _ g, of 1] g by (simp add: contains_def)
qed

text \<open>
  Key 1 is stored at time 0 and key 2 twenty seconds later, with a TTL of ten seconds.
  Key 1 is in the cache after that second call, and a lookup of key 1 at the same time
  counts an expiration and a miss, not a hit.
\<close>

theorem unrequested_key_expired_counterexample:
  "LRUCache_replay 3 10000000 [([1::nat], 0), ([2], 20000000)] =
     Inr \<lparr>max_size = 3, ttl = 10000000, ttl_seconds = 10,
          cache = [(1, (0, 0)), (2, (0, 20000000))],
          hits = 0, misses = 2, bulk_misses = 2, evictions = 0, expirations = 0\<rparr> \<and>
   get [1] 20000000
     \<lparr>max_size = 3, ttl = 10000000, ttl_seconds = 10,
      cache = [(1::nat, (0, 0)), (2, (0, 20000000))],
      hits = 0, misses = 2, bulk_misses = 2, evictions = 0, expirations = 0\<rparr> =
     Inr ([0],
       \<lparr>max_size = 3, ttl = 10000000, ttl_seconds = 10,
        cache = [(2, (0, 20000000)), (1, (0, 20000000))],
        hits = 0, misses = 3, bulk_misses = 3, evictions = 0, expirations = 1\<rparr>)"
  by (simp add: LRUCache_replay_def LRUCache_init_def get_def move_to_end_def
      popitem_first_def is_expired_at_time_def round_double_eval)

subsection \<open>The returned flags\<close>

text \<open>
  Claim C10. Whenever a bulk lookup returns, on the base cache or on the batch layer, its
  result is one flag per requested key and every flag is 0; and it does return on every
  cache whose capacity is at least one.
\<close>

theorem bulk_lookup_flags_all_zero:
  "(\<forall>res s'. get keys t s = Inr (res, s') \<longrightarrow> res = replicate (length keys) 0) \<and>
   (1 \<le> max_size s \<longrightarrow> (\<exists>s'. get keys t s = Inr (replicate (length keys) 0, s'))) \<and>
   (\<forall>res b'. batch_get keys t b = Inr (res, b') \<longrightarrow> res = replicate (length keys) 0) \<and>
   (1 \<le> max_size b \<longrightarrow> (\<exists>b'. batch_get keys t b = Inr (replicate (length keys) 0, b')))"
proof (intro conjI allI impI)
  fix res s'
  assume "get keys t s = Inr (res, s')"
  then show "res = replicate (length keys) 0" using get_result by blast
next
  assume "1 \<le> max_size s"
  then show "\<exists>s'. get keys t s = Inr (replicate (length keys) 0, s')" by (rule get_returns)
next
  fix res b'
  assume a: "batch_get keys t b = Inr (res, b')"
  show "res = replicate (length keys) 0"
  proof (cases "keys = []")
    case True
    then show ?thesis using a by (simp add: batch_get_unfold)
  next
    case False
    let ?b1 = "b\<lparr>refresh_batch := refresh_batch b @ collect_near_expired keys t b []\<rparr>"
    from a False obtain b2 where "get keys t ?b1 = Inr (res, b2)"
      by (auto simp: batch_get_unfold split: sum.splits)
    then show ?thesis using get_result by blast
  qed
next
  assume m: "1 \<le> max_size b"
  let ?b1 = "b\<lparr>refresh_batch := refresh_batch b @ collect_near_expired keys t b []\<rparr>"
  have "1 \<le> max_size ?b1" using m by simp
  from get_returns[OF this, of keys t] obtain b2 where
    "get keys t ?b1 = Inr (replicate (length keys) 0, b2)" by blast
  then show "\<exists>b'. batch_get keys t b = Inr (replicate (length keys) 0, b')"
    by (simp add: batch_get_unfold)
qed

theorem bulk_lookup_flags_all_zero_witness:
  "(1::int) \<le> 1 \<and>
   get [7::nat, 7, 8] 5000000
     \<lparr>max_size = 1, ttl = 10000000, ttl_seconds = 10, cache = [(7, (0, 0))], hits = 0,
      misses = 0, bulk_misses = 0, evictions = 0, expirations = 0\<rparr> =
   Inr ([0, 0, 0],
     \<lparr>max_size = 1, ttl = 10000000, ttl_seconds = 10, cache = [(8, (0, 5000000))], hits = 2,
      misses = 1, bulk_misses = 1, evictions = 1, expirations = 0\<rparr>) \<and>
   batch_get [7::nat, 7, 8] 5000000
     \<lparr>max_size = 1, ttl = 10000000, ttl_seconds = 10, cache = [(7, (0, 0))], hits = 0,
      misses = 0, bulk_misses = 0, evictions = 0, expirations = 0, half_ttl = 1 / 2,
      max_request_size = 2, half_ttl_seconds = 5, refresh_batch = [],
      batch_updates = 0\<rparr> =
   Inr ([0, 0, 0],
     \<lparr>max_size = 1, ttl = 10000000, ttl_seconds = 10, cache = [(8, (0, 5000000))], hits = 2,
      misses = 1, bulk_misses = 1, evictions = 1, expirations = 0, half_ttl = 1 / 2,
      max_request_size = 2, half_ttl_seconds = 5, refresh_batch = [],
      batch_updates = 0\<rparr>)"
  using bulk_lookup_flags_all_zero[of "[7::nat, 7, 8]" 5000000
     "\<lparr>max_size = 1, ttl = 10000000, ttl_seconds = 10, cache = [(7, (0, 0))], hits = 0,
      misses = 0, bulk_misses = 0, evictions = 0, expirations = 0\<rparr>"
     "\<lparr>max_size = 1, ttl = 10000000, ttl_seconds = 10, cache = [(7, (0, 0))], hits = 0,
      misses = 0, bulk_misses = 0, evictions = 0, expirations = 0, half_ttl = 1 / 2,
      max_request_size = 2, half_ttl_seconds = 5, refresh_batch = [],
      batch_updates = 0\<rparr>"]
  by (simp add: get_def batch_get_def move_to_end_def popitem_first_def
      is_expired_at_time_def is_near_expiration_def round_double_eval
      process_refresh_batch_def contains_def)

end
